theory Spec2Isabelle
  imports Main "HOL-Library.Word" "HOL-Library.Monad_Syntax"
begin

unbundle bit_operations_syntax

section \<open>Python values used by gbbsmsgtool.py\<close>

text \<open>
  The store buffer is a Python \<^verbatim>\<open>bytes\<close> object: a list of 8-bit values.
  A Python \<^verbatim>\<open>str\<close> is modelled as the list of its code points. Every string
  the tool builds comes out of \<^verbatim>\<open>bytes.decode('ascii', errors='replace')\<close>, so
  its code points are below 128 or the replacement character U+FFFD (65533).
  Block numbers, offsets and lengths are non-negative Python integers (natural
  numbers); \<^verbatim>\<open>total_blocks\<close> is a difference divided by 128 and can be negative,
  so it is an \<open>int\<close>. A function that can raise an exception returns an option:
  \<open>None\<close> stands for the raised exception.
\<close>

type_synonym byte = "8 word"
type_synonym pystr = "nat list"

definition of_str :: "string \<Rightarrow> pystr" where
  "of_str s = map of_char s"

text \<open>\<^verbatim>\<open>xs[a:b]\<close> for non-negative \<open>a\<close> and \<open>b\<close>: Python clips the slice to the list.\<close>

definition slice :: "'a list \<Rightarrow> nat \<Rightarrow> nat \<Rightarrow> 'a list" where
  "slice xs a b = take (b - a) (drop a xs)"

text \<open>\<^verbatim>\<open>struct.unpack('<H', bs)[0]\<close>: raises \<^verbatim>\<open>struct.error\<close> unless \<open>bs\<close> has two bytes.\<close>

definition unpack_H :: "byte list \<Rightarrow> nat option" where
  "unpack_H bs = (case bs of [lo, hi] \<Rightarrow> Some (unat lo + 256 * unat hi) | _ \<Rightarrow> None)"

text \<open>\<^verbatim>\<open>bytes(result)\<close> on a list of integers: raises \<^verbatim>\<open>ValueError\<close> unless every
  element is in \<open>range(256)\<close>.\<close>

definition py_bytes :: "nat list \<Rightarrow> nat list option" where
  "py_bytes xs = (if list_all (\<lambda>c. c < 256) xs then Some xs else None)"

text \<open>\<^verbatim>\<open>.decode('ascii', errors='replace')\<close>: a byte above 127 becomes U+FFFD.\<close>

definition ascii_decode_replace :: "nat list \<Rightarrow> pystr" where
  "ascii_decode_replace bs = map (\<lambda>c. if c < 128 then c else 65533) bs"

text \<open>\<^verbatim>\<open>.replace('\r', '\n')\<close>.\<close>

definition replace_cr :: "pystr \<Rightarrow> pystr" where
  "replace_cr s = map (\<lambda>c. if c = 13 then 10 else c) s"

section \<open>decode\_7bit\<close>

text \<open>One round of \<^verbatim>\<open>for b in bytes_7\<close>: the state is \<open>(char8, chars)\<close>.\<close>

definition group_step :: "byte \<Rightarrow> nat \<times> nat list \<Rightarrow> nat \<times> nat list" where
  "group_step b s = (case s of (char8, chars) \<Rightarrow>
     ((drop_bit 1 char8) OR (drop_bit 0 (unat (b AND 0x80))), chars @ [unat (b AND 0x7F)]))"

definition decode_group :: "byte list \<Rightarrow> nat list" where
  "decode_group bytes_7 = (case fold group_step bytes_7 (0, []) of (char8, chars) \<Rightarrow>
     chars @ [drop_bit 1 char8])"

text \<open>\<^verbatim>\<open>for c in chars\<close>: appends to \<open>result\<close>; the flag says that the function
  returned from inside the loop (a zero in stop-at-null mode).\<close>

fun emit_chars :: "bool \<Rightarrow> nat list \<Rightarrow> nat list \<Rightarrow> nat list \<times> bool" where
  "emit_chars stop_at_null [] result = (result, False)"
| "emit_chars stop_at_null (c # cs) result =
     (if stop_at_null \<and> c = 0 then (result, True)
      else emit_chars stop_at_null cs (result @ [c]))"

function decode_loop :: "byte list \<Rightarrow> bool \<Rightarrow> nat \<Rightarrow> nat list \<Rightarrow> nat list" where
  "decode_loop compressed_data stop_at_null i result =
     (if i + 6 < length compressed_data then
        (case emit_chars stop_at_null (decode_group (slice compressed_data i (i + 7))) result of
           (result', True) \<Rightarrow> result'
         | (result', False) \<Rightarrow> decode_loop compressed_data stop_at_null (i + 7) result')
      else result)"
  by pat_completeness auto
termination
  by (relation "measure (\<lambda>(d, s, i, r). length d - i)") auto

declare decode_loop.simps [simp del]

definition decode_7bit :: "byte list \<Rightarrow> bool \<Rightarrow> pystr option" where
  "decode_7bit compressed_data stop_at_null =
     do { bs \<leftarrow> py_bytes (decode_loop compressed_data stop_at_null 0 []);
          Some (replace_cr (ascii_decode_replace bs)) }"

section \<open>Text primitives\<close>

text \<open>
  \<^verbatim>\<open>\d\<close> and \<^verbatim>\<open>\s\<close> of the \<^verbatim>\<open>re\<close> module and the whitespace of \<^verbatim>\<open>str.strip()\<close>,
  on the code points that occur (below 128, or U+FFFD, which is neither a digit
  nor whitespace).
\<close>

definition is_digit :: "nat \<Rightarrow> bool" where
  "is_digit c = (48 \<le> c \<and> c \<le> 57)"

definition is_space :: "nat \<Rightarrow> bool" where
  "is_space c = ((9 \<le> c \<and> c \<le> 13) \<or> (28 \<le> c \<and> c \<le> 32))"

text \<open>\<^verbatim>\<open>s.split(sep)\<close> for a separator of one character.\<close>

primrec split_on :: "nat \<Rightarrow> pystr \<Rightarrow> pystr list" where
  "split_on sep [] = [[]]"
| "split_on sep (c # cs) =
     (if c = sep then [] # split_on sep cs
      else (case split_on sep cs of [] \<Rightarrow> [[c]] | l # ls \<Rightarrow> (c # l) # ls))"

fun starts_with :: "pystr \<Rightarrow> pystr \<Rightarrow> bool" where
  "starts_with [] s = True"
| "starts_with (p # ps) [] = False"
| "starts_with (p # ps) (c # cs) = (p = c \<and> starts_with ps cs)"

text \<open>\<^verbatim>\<open>pat in s\<close> on strings.\<close>

primrec py_in :: "pystr \<Rightarrow> pystr \<Rightarrow> bool" where
  "py_in pat [] = starts_with pat []"
| "py_in pat (c # cs) = (starts_with pat (c # cs) \<or> py_in pat cs)"

text \<open>\<^verbatim>\<open>s.strip()\<close> and \<^verbatim>\<open>s.lstrip('\x00')\<close>.\<close>

definition py_strip :: "pystr \<Rightarrow> pystr" where
  "py_strip s = rev (dropWhile is_space (rev (dropWhile is_space s)))"

definition lstrip_nul :: "pystr \<Rightarrow> pystr" where
  "lstrip_nul s = dropWhile (\<lambda>c. c = 0) s"

text \<open>\<^verbatim>\<open>re.match(r'^\d+,', s)\<close>: one or more digits, then a comma.\<close>

definition match_number_comma :: "pystr \<Rightarrow> bool" where
  "match_number_comma s =
     (takeWhile is_digit s \<noteq> [] \<and>
      (case dropWhile is_digit s of [] \<Rightarrow> False | c # _ \<Rightarrow> c = 44))"

section \<open>parse\_date\<close>

text \<open>
  The two regular expressions of \<^verbatim>\<open>parse_date\<close> need no backtracking: each
  repetition is followed by a character outside its class. A matcher takes the text
  at a position and returns the three groups, or \<open>None\<close> for no match.
  \<^verbatim>\<open>datetime.strptime\<close> belongs to the Python library, not to this program: it is
  the parameter \<open>strptime\<close>, applied to the string the program hands to it, with
  \<open>None\<close> for the \<^verbatim>\<open>ValueError\<close> that \<^verbatim>\<open>parse_date\<close> catches.
\<close>

definition take_digits :: "nat \<Rightarrow> nat \<Rightarrow> pystr \<Rightarrow> (pystr \<times> pystr) option" where
  "take_digits lo hi s =
     (let ds = takeWhile is_digit (take hi s)
      in if length ds < lo then None else Some (ds, drop (length ds) s))"

definition take_lit :: "pystr \<Rightarrow> pystr \<Rightarrow> pystr option" where
  "take_lit pat s = (if starts_with pat s then Some (drop (length pat) s) else None)"

definition take_spaces1 :: "pystr \<Rightarrow> pystr option" where
  "take_spaces1 s = (case s of [] \<Rightarrow> None
     | c # _ \<Rightarrow> if is_space c then Some (dropWhile is_space s) else None)"

definition take_ampm :: "pystr \<Rightarrow> (pystr \<times> pystr) option" where
  "take_ampm s = (case s of a # m # r \<Rightarrow>
       if (a = 65 \<or> a = 80) \<and> m = 77 then Some ([a, m], r) else None
     | _ \<Rightarrow> None)"

text \<open>\<^verbatim>\<open>(\d{1,2}/\d{1,2}/\d{2})\s+(\d{1,2}:\d{2}:\d{2})\s+([AP]M)\<close>\<close>

definition date_groups :: "pystr \<Rightarrow> (pystr \<times> pystr \<times> pystr) option" where
  "date_groups s = do {
     (mo, s1) \<leftarrow> take_digits 1 2 s;
     s2 \<leftarrow> take_lit (of_str ''/'') s1;
     (dy, s3) \<leftarrow> take_digits 1 2 s2;
     s4 \<leftarrow> take_lit (of_str ''/'') s3;
     (yr, s5) \<leftarrow> take_digits 2 2 s4;
     s6 \<leftarrow> take_spaces1 s5;
     (hh, s7) \<leftarrow> take_digits 1 2 s6;
     s8 \<leftarrow> take_lit (of_str '':'') s7;
     (mi, s9) \<leftarrow> take_digits 2 2 s8;
     s10 \<leftarrow> take_lit (of_str '':'') s9;
     (ss, s11) \<leftarrow> take_digits 2 2 s10;
     s12 \<leftarrow> take_spaces1 s11;
     (ap, s13) \<leftarrow> take_ampm s12;
     Some (mo @ of_str ''/'' @ dy @ of_str ''/'' @ yr, hh @ of_str '':'' @ mi @ of_str '':'' @ ss, ap) }"

text \<open>\<^verbatim>\<open>Date\s*[:-]\s*\<close> and \<^verbatim>\<open>Date\s*->\s*\<close>, each followed by the groups.\<close>

definition date_pattern1 :: "pystr \<Rightarrow> (pystr \<times> pystr \<times> pystr) option" where
  "date_pattern1 s = do {
     s1 \<leftarrow> take_lit (of_str ''Date'') s;
     (case dropWhile is_space s1 of [] \<Rightarrow> None
      | c # s2 \<Rightarrow> if c = 58 \<or> c = 45 then date_groups (dropWhile is_space s2) else None) }"

definition date_pattern2 :: "pystr \<Rightarrow> (pystr \<times> pystr \<times> pystr) option" where
  "date_pattern2 s = do {
     s1 \<leftarrow> take_lit (of_str ''Date'') s;
     s2 \<leftarrow> take_lit (of_str ''->'') (dropWhile is_space s1);
     date_groups (dropWhile is_space s2) }"

text \<open>\<^verbatim>\<open>re.search\<close>: the match at the leftmost position that has one.\<close>

primrec re_search :: "(pystr \<Rightarrow> 'g option) \<Rightarrow> pystr \<Rightarrow> 'g option" where
  "re_search p [] = p []"
| "re_search p (c # cs) = (case p (c # cs) of Some g \<Rightarrow> Some g | None \<Rightarrow> re_search p cs)"

definition date_str :: "pystr \<times> pystr \<times> pystr \<Rightarrow> pystr" where
  "date_str g = (case g of (g1, g2, g3) \<Rightarrow> g1 @ of_str '' '' @ g2 @ of_str '' '' @ g3)"

definition try_date :: "(pystr \<Rightarrow> 'd option) \<Rightarrow> (pystr \<Rightarrow> (pystr \<times> pystr \<times> pystr) option) \<Rightarrow> pystr \<Rightarrow> 'd option" where
  "try_date strptime pat text_in =
     (case re_search pat text_in of None \<Rightarrow> None | Some g \<Rightarrow> strptime (date_str g))"

definition parse_date :: "(pystr \<Rightarrow> 'd option) \<Rightarrow> pystr \<Rightarrow> 'd option" where
  "parse_date strptime text_in =
     (case try_date strptime date_pattern1 text_in of
        Some d \<Rightarrow> Some d
      | None \<Rightarrow> try_date strptime date_pattern2 text_in)"

section \<open>read\_msginfo and is\_message\_start\<close>

text \<open>The dictionary of \<^verbatim>\<open>read_msginfo\<close>; the field \<open>mi_k\<close> is its key \<open>k\<close>.\<close>

record msginfo =
  mi_bitmap_blocks :: nat
  mi_dir_blocks :: nat
  mi_used_blocks :: nat
  mi_msg_count :: nat
  mi_new_msg_num :: nat
  mi_bitmap_offset :: nat
  mi_dir_offset :: nat
  mi_data_offset :: nat
  mi_max_dir_entries :: nat

text \<open>The outer option is an exception, the inner one the \<^verbatim>\<open>None\<close> the function
  returns for a buffer of fewer than 8 bytes.\<close>

definition read_msginfo :: "byte list \<Rightarrow> msginfo option option" where
  "read_msginfo data =
     (if length data < 8 then Some None
      else do {
        used \<leftarrow> unpack_H (slice data 2 4);
        msg_count \<leftarrow> unpack_H (slice data 4 6);
        new_msg_num \<leftarrow> unpack_H (slice data 6 8);
        Some (Some \<lparr> mi_bitmap_blocks = unat (data ! 0),
                     mi_dir_blocks = unat (data ! 1),
                     mi_used_blocks = used,
                     mi_msg_count = msg_count,
                     mi_new_msg_num = new_msg_num,
                     mi_bitmap_offset = 8,
                     mi_dir_offset = 8 + (unat (data ! 0) * 128),
                     mi_data_offset = 8 + (unat (data ! 0) * 128) + (unat (data ! 1) * 128),
                     mi_max_dir_entries = (unat (data ! 1) * 128) div 4 \<rparr>) })"

text \<open>The indices 1, 2 and 3 are read only after the length check, as in the source.\<close>

definition is_message_start :: "pystr \<Rightarrow> bool" where
  "is_message_start decoded_text =
     (let lines = split_on 10 decoded_text in
      if length lines < 4 then False
      else if \<not> (match_number_comma (lines ! 1) \<and> match_number_comma (lines ! 2)) then False
      else if \<not> (py_in (of_str ''Date'') (lines ! 3) \<and>
                  (py_in (of_str '':'') (lines ! 3) \<or> py_in (of_str ''->'') (lines ! 3))) then False
      else True)"

section \<open>follow\_chain\_with\_tracking\<close>

text \<open>
  The local variables of the loop. \<open>visited\<close> and \<open>blocks_used\<close> are Python sets
  that only grow: each is kept as the list of the blocks in the order in which
  \<^verbatim>\<open>add\<close> was executed, and the Python set is the \<open>set\<close> of the list. A block
  number repeated in \<open>visited\<close> would be a block the loop body was run on twice.
\<close>

record follow_state =
  message_parts :: "pystr list"
  current_block :: nat
  visited :: "nat list"
  blocks_used :: "nat list"
  first_block :: bool

text \<open>How one run of the loop body ends: at \<^verbatim>\<open>break\<close>, or at \<^verbatim>\<open>continue\<close> or the
  end of the body (back to the loop test).\<close>

datatype 'a ctl = Break 'a | Continue 'a

text \<open>The self-reference branch (\<^verbatim>\<open>if next_block == current_block\<close>): the block number
  to resume at, if the sequential block passes the probe.\<close>

definition probe_sequential :: "byte list \<Rightarrow> int \<Rightarrow> nat set \<Rightarrow> nat \<Rightarrow> nat \<Rightarrow> nat option option" where
  "probe_sequential data total_blocks stop_blocks data_offset current =
     (let next_sequential = current + 1 in
      if int next_sequential \<le> total_blocks \<and> next_sequential \<notin> stop_blocks then
        (let next_seq_offset = data_offset + (next_sequential - 1) * 128 in
         if next_seq_offset + 128 \<le> length data then
           do { next_seq_decoded \<leftarrow>
                  decode_7bit (slice data next_seq_offset (next_seq_offset + 126)) False;
                if \<not> is_message_start next_seq_decoded \<and> length (py_strip next_seq_decoded) > 10
                then Some (Some next_sequential) else Some None }
         else Some None)
      else Some None)"

definition follow_body ::
  "byte list \<Rightarrow> int \<Rightarrow> nat set \<Rightarrow> nat \<Rightarrow> follow_state \<Rightarrow> follow_state ctl option" where
  "follow_body data total_blocks stop_blocks data_offset st =
     (let current = current_block st in
      if current \<in> stop_blocks then Some (Break st)
      else
        (let st1 = st\<lparr>visited := visited st @ [current], blocks_used := blocks_used st @ [current]\<rparr>;
             block_offset = data_offset + (current - 1) * 128 in
         if block_offset + 128 > length data \<or> int current > total_blocks then Some (Break st1)
         else do {
           next_block \<leftarrow> unpack_H (slice data (block_offset + 126) (block_offset + 128));
           decoded \<leftarrow> decode_7bit (slice data block_offset (block_offset + 126)) False;
           if \<not> first_block st \<and> is_message_start decoded then Some (Break st1)
           else
             (let st2 = st1\<lparr>message_parts := message_parts st @
                                [if \<not> first_block st then lstrip_nul decoded else decoded],
                            first_block := False\<rparr> in
              if next_block = 0 then Some (Break st2)
              else if next_block = current then
                do { resume \<leftarrow> probe_sequential data total_blocks stop_blocks data_offset current;
                     (case resume of
                        Some next_sequential \<Rightarrow> Some (Continue (st2\<lparr>current_block := next_sequential\<rparr>))
                      | None \<Rightarrow> Some (Break st2)) }
              else if next_block \<in> set (visited st1) then Some (Break st2)
              else Some (Continue (st2\<lparr>current_block := next_block\<rparr>))) }))"

lemma follow_body_Continue:
  assumes "follow_body data total_blocks stop_blocks data_offset st = Some (Continue st')"
  shows "visited st' = visited st @ [current_block st] \<and> int (current_block st) \<le> total_blocks"
  using assms
  by (auto simp add: follow_body_def Let_def split: if_splits bind_splits option.splits)

function follow_loop ::
  "byte list \<Rightarrow> int \<Rightarrow> nat set \<Rightarrow> nat \<Rightarrow> follow_state \<Rightarrow> follow_state option" where
  "follow_loop data total_blocks stop_blocks data_offset st =
     (if current_block st \<noteq> 0 \<and> current_block st \<notin> set (visited st) then
        (case follow_body data total_blocks stop_blocks data_offset st of
           None \<Rightarrow> None
         | Some (Break st') \<Rightarrow> Some st'
         | Some (Continue st') \<Rightarrow> follow_loop data total_blocks stop_blocks data_offset st')
      else Some st)"
  by pat_completeness auto

text \<open>The loop ends: a run of the body that goes back to the loop test has added
  to \<open>visited\<close> a block in \<open>1..total_blocks\<close> that was not in it.\<close>

definition in_range_blocks :: "int \<Rightarrow> nat set" where
  "in_range_blocks total_blocks = {b. 1 \<le> b \<and> int b \<le> total_blocks}"

lemma finite_in_range_blocks: "finite (in_range_blocks t)"
proof -
  have "in_range_blocks t \<subseteq> {..nat t}" by (auto simp add: in_range_blocks_def)
  then show ?thesis by (rule finite_subset) simp
qed

lemma follow_measure:
  assumes "current_block st \<noteq> 0" "current_block st \<notin> set (visited st)"
    and "follow_body data total_blocks stop_blocks data_offset st = Some (Continue st')"
  shows "card (in_range_blocks total_blocks - set (visited st'))
       < card (in_range_blocks total_blocks - set (visited st))"
proof -
  from follow_body_Continue [OF assms(3)]
  have v: "visited st' = visited st @ [current_block st]"
    and r: "int (current_block st) \<le> total_blocks"
    by simp_all
  have m: "current_block st \<in> in_range_blocks total_blocks - set (visited st)"
    using assms(1,2) r by (simp add: in_range_blocks_def)
  have e: "in_range_blocks total_blocks - set (visited st')
         = (in_range_blocks total_blocks - set (visited st)) - {current_block st}"
    using v by auto
  have f: "finite (in_range_blocks total_blocks - set (visited st))"
    using finite_in_range_blocks by simp
  show ?thesis unfolding e by (rule card_Diff1_less [OF f m])
qed

termination follow_loop
  by (relation "measure (\<lambda>(data, total_blocks, stop_blocks, data_offset, st).
        card (in_range_blocks total_blocks - set (visited st)))")
     (auto intro: follow_measure)

declare follow_loop.simps [simp del]

text \<open>The number of times the loop body is entered in \<open>follow_loop\<close>: a counter
  beside the loop, not a variable of the source.\<close>

function follow_iters :: "byte list \<Rightarrow> int \<Rightarrow> nat set \<Rightarrow> nat \<Rightarrow> follow_state \<Rightarrow> nat" where
  "follow_iters data total_blocks stop_blocks data_offset st =
     (if current_block st \<noteq> 0 \<and> current_block st \<notin> set (visited st) then
        (case follow_body data total_blocks stop_blocks data_offset st of
           None \<Rightarrow> 1
         | Some (Break st') \<Rightarrow> 1
         | Some (Continue st') \<Rightarrow> 1 + follow_iters data total_blocks stop_blocks data_offset st')
      else 0)"
  by pat_completeness auto
termination
  by (relation "measure (\<lambda>(data, total_blocks, stop_blocks, data_offset, st).
        card (in_range_blocks total_blocks - set (visited st)))")
     (auto intro: follow_measure)

declare follow_iters.simps [simp del]

definition follow_init :: "nat \<Rightarrow> follow_state" where
  "follow_init start_block =
     \<lparr> message_parts = [], current_block = start_block, visited = [], blocks_used = [],
       first_block = True \<rparr>"

text \<open>The text after the loop: joined, and cut at the first zero character if there is one.\<close>

definition full_message :: "pystr list \<Rightarrow> pystr" where
  "full_message parts =
     (let joined = concat parts in
      if 0 \<in> set joined then takeWhile (\<lambda>c. c \<noteq> 0) joined else joined)"

definition follow_chain_with_tracking ::
  "byte list \<Rightarrow> nat \<Rightarrow> int \<Rightarrow> nat set \<Rightarrow> nat \<Rightarrow> (pystr \<times> nat list) option" where
  "follow_chain_with_tracking data start_block total_blocks stop_blocks data_offset =
     do { st \<leftarrow> follow_loop data total_blocks stop_blocks data_offset (follow_init start_block);
          Some (full_message (message_parts st), blocks_used st) }"

section \<open>scan\_database\_bulletin\<close>

text \<open>
  The message dictionaries. In the three phases each record is kept together with
  the \<open>chain_blocks\<close> of its call of the chain follower, the set the source merges
  into \<open>used_blocks\<close> in the same iteration; the scan result drops it.
\<close>

record 'd active_message =
  am_entry :: nat
  am_block :: nat
  am_message :: pystr
  am_date :: "'d option"

record 'd deleted_message =
  dm_block :: nat
  dm_message :: pystr
  dm_date :: "'d option"

record orphaned_message =
  om_block :: nat
  om_message :: pystr

text \<open>Phase 1: \<^verbatim>\<open>for entry_num in range(max_entries)\<close>.\<close>

fun phase1_loop ::
  "(pystr \<Rightarrow> 'd option) \<Rightarrow> byte list \<Rightarrow> nat \<Rightarrow> nat \<Rightarrow> int \<Rightarrow> nat list \<Rightarrow> nat set \<Rightarrow>
   ('d active_message \<times> nat list) list \<Rightarrow> (('d active_message \<times> nat list) list \<times> nat set) option" where
  "phase1_loop strptime data dir_offset data_offset total_blocks [] used active = Some (active, used)"
| "phase1_loop strptime data dir_offset data_offset total_blocks (entry_num # rest) used active =
     (let entry_offset = dir_offset + (entry_num * 4) in
      if entry_offset + 4 > length data then Some (active, used)
      else
        (let entry = slice data entry_offset (entry_offset + 4) in
         if length entry < 4 then Some (active, used)
         else do {
           block_num \<leftarrow> unpack_H (slice entry 2 4);
           if block_num = 0 then
             phase1_loop strptime data dir_offset data_offset total_blocks rest used active
           else if int block_num > total_blocks then
             phase1_loop strptime data dir_offset data_offset total_blocks rest used active
           else do {
             (message, chain_blocks) \<leftarrow>
               follow_chain_with_tracking data block_num total_blocks used data_offset;
             phase1_loop strptime data dir_offset data_offset total_blocks rest
               (used \<union> set chain_blocks)
               (active @ [(\<lparr> am_entry = entry_num, am_block = block_num, am_message = message,
                              am_date = parse_date strptime message \<rparr>, chain_blocks)]) } }))"

text \<open>\<^verbatim>\<open>sorted(all_blocks - used_blocks)\<close> with \<^verbatim>\<open>all_blocks = set(range(1, total_blocks + 1))\<close>.\<close>

definition sorted_unused :: "int \<Rightarrow> nat set \<Rightarrow> nat list" where
  "sorted_unused total_blocks used = filter (\<lambda>b. b \<notin> used) (map nat [1..total_blocks])"

definition non_null_count :: "byte list \<Rightarrow> nat" where
  "non_null_count block_data = length (filter (\<lambda>b. b \<noteq> 0) block_data)"

text \<open>Phase 2: \<^verbatim>\<open>for block_num in sorted(unused_blocks)\<close>.\<close>

fun phase2_loop ::
  "(pystr \<Rightarrow> 'd option) \<Rightarrow> byte list \<Rightarrow> nat \<Rightarrow> int \<Rightarrow> nat list \<Rightarrow> nat set \<Rightarrow>
   ('d deleted_message \<times> nat list) list \<Rightarrow> nat set \<Rightarrow>
   (('d deleted_message \<times> nat list) list \<times> nat set \<times> nat set) option" where
  "phase2_loop strptime data data_offset total_blocks [] used deleted deleted_all =
     Some (deleted, deleted_all, used)"
| "phase2_loop strptime data data_offset total_blocks (block_num # rest) used deleted deleted_all =
     (if block_num \<in> used then
        phase2_loop strptime data data_offset total_blocks rest used deleted deleted_all
      else
        (let block_offset = data_offset + (block_num - 1) * 128 in
         if block_offset + 128 > length data then
           phase2_loop strptime data data_offset total_blocks rest used deleted deleted_all
         else
           (let block_data = slice data block_offset (block_offset + 126) in
            if non_null_count block_data < 10 then
              phase2_loop strptime data data_offset total_blocks rest used deleted deleted_all
            else do {
              decoded \<leftarrow> decode_7bit block_data True;
              if \<not> is_message_start decoded then
                phase2_loop strptime data data_offset total_blocks rest used deleted deleted_all
              else do {
                (message, chain_blocks) \<leftarrow>
                  follow_chain_with_tracking data block_num total_blocks used data_offset;
                phase2_loop strptime data data_offset total_blocks rest
                  (used \<union> set chain_blocks)
                  (deleted @ [(\<lparr> dm_block = block_num, dm_message = message,
                                  dm_date = parse_date strptime message \<rparr>, chain_blocks)])
                  (deleted_all \<union> set chain_blocks) } })))"

text \<open>Phase 3: \<^verbatim>\<open>for block_num in sorted(unused_blocks)\<close>, without the message-start test.\<close>

fun phase3_loop ::
  "byte list \<Rightarrow> nat \<Rightarrow> int \<Rightarrow> nat list \<Rightarrow> nat set \<Rightarrow>
   (orphaned_message \<times> nat list) list \<Rightarrow> ((orphaned_message \<times> nat list) list \<times> nat set) option" where
  "phase3_loop data data_offset total_blocks [] used orphaned = Some (orphaned, used)"
| "phase3_loop data data_offset total_blocks (block_num # rest) used orphaned =
     (if block_num \<in> used then phase3_loop data data_offset total_blocks rest used orphaned
      else
        (let block_offset = data_offset + (block_num - 1) * 128 in
         if block_offset + 128 > length data then
           phase3_loop data data_offset total_blocks rest used orphaned
         else
           (let block_data = slice data block_offset (block_offset + 126) in
            if non_null_count block_data < 10 then
              phase3_loop data data_offset total_blocks rest used orphaned
            else do {
              (message, chain_blocks) \<leftarrow>
                follow_chain_with_tracking data block_num total_blocks used data_offset;
              phase3_loop data data_offset total_blocks rest
                (used \<union> set chain_blocks)
                (orphaned @ [(\<lparr> om_block = block_num, om_message = message \<rparr>, chain_blocks)]) })))"

text \<open>The three phases in order, on the shared \<open>used_blocks\<close>. The result holds the
  records of each phase with their chain blocks, \<open>deleted_all_blocks\<close> and the final
  \<open>used_blocks\<close>.\<close>

definition bulletin_phases ::
  "(pystr \<Rightarrow> 'd option) \<Rightarrow> byte list \<Rightarrow> nat \<Rightarrow> nat \<Rightarrow> int \<Rightarrow> nat \<Rightarrow>
   (('d active_message \<times> nat list) list \<times> ('d deleted_message \<times> nat list) list \<times>
    (orphaned_message \<times> nat list) list \<times> nat set \<times> nat set) option" where
  "bulletin_phases strptime data dir_offset data_offset total_blocks max_entries =
     do { (active, used1) \<leftarrow>
            phase1_loop strptime data dir_offset data_offset total_blocks [0..<max_entries] {} [];
          (deleted, deleted_all, used2) \<leftarrow>
            phase2_loop strptime data data_offset total_blocks
              (sorted_unused total_blocks used1) used1 [] {};
          (orphaned, used3) \<leftarrow>
            phase3_loop data data_offset total_blocks (sorted_unused total_blocks used2) used2 [];
          Some (active, deleted, orphaned, deleted_all, used3) }"

text \<open>The second walk over the active chains (\<open>active_all_blocks\<close>), which does not
  look at \<open>used_blocks\<close>: the inner \<^verbatim>\<open>while\<close> and the \<^verbatim>\<open>for msg in active_messages\<close>.\<close>

definition storable_blocks :: "byte list \<Rightarrow> nat \<Rightarrow> nat set" where
  "storable_blocks data data_offset = {b. 1 \<le> b \<and> data_offset + b * 128 \<le> length data}"

function active_chain_loop :: "byte list \<Rightarrow> nat \<Rightarrow> nat \<Rightarrow> nat set \<Rightarrow> nat set \<Rightarrow> nat set option" where
  "active_chain_loop data data_offset next_block visited_set active_all =
     (if next_block \<noteq> 0 \<and> next_block \<notin> visited_set then
        (let block_offset = data_offset + (next_block - 1) * 128 in
         if block_offset + 128 > length data then Some (insert next_block active_all)
         else
           (case unpack_H (slice data (block_offset + 126) (block_offset + 128)) of
              None \<Rightarrow> None
            | Some next_block' \<Rightarrow>
                active_chain_loop data data_offset next_block'
                  (insert next_block visited_set) (insert next_block active_all)))
      else Some active_all)"
  by pat_completeness auto
termination
proof (relation "measure (\<lambda>(data, data_offset, next_block, visited_set, active_all).
          card (storable_blocks data data_offset - visited_set))", goal_cases)
  case 1
  show ?case by simp
next
  case (2 data data_offset next_block visited_set active_all block_offset next_block')
  have "storable_blocks data data_offset \<subseteq> {..length data}"
    by (auto simp add: storable_blocks_def)
  then have f: "finite (storable_blocks data data_offset - visited_set)"
    using finite_subset by blast
  have "data_offset + next_block * 128 = data_offset + (next_block - 1) * 128 + 128"
    using 2(1) by (cases next_block) simp_all
  then have m: "next_block \<in> storable_blocks data data_offset - visited_set"
    using 2 by (simp add: storable_blocks_def)
  have e: "storable_blocks data data_offset - insert next_block visited_set
         = (storable_blocks data data_offset - visited_set) - {next_block}"
    by auto
  show ?case using card_Diff1_less [OF f m] by (simp add: e)
qed

declare active_chain_loop.simps [simp del]

fun active_blocks_loop :: "byte list \<Rightarrow> nat \<Rightarrow> 'd active_message list \<Rightarrow> nat set \<Rightarrow> nat set option" where
  "active_blocks_loop data data_offset [] active_all = Some active_all"
| "active_blocks_loop data data_offset (msg # rest) active_all =
     (let current = am_block msg;
          block_offset = data_offset + (current - 1) * 128 in
      if block_offset + 128 \<le> length data then
        do { next_block \<leftarrow> unpack_H (slice data (block_offset + 126) (block_offset + 128));
             active_all' \<leftarrow>
               active_chain_loop data data_offset next_block {current} (insert current active_all);
             active_blocks_loop data data_offset rest active_all' }
      else active_blocks_loop data data_offset rest (insert current active_all))"

record 'd bulletin_result =
  br_format :: string
  br_msginfo :: msginfo
  br_total_blocks :: int
  br_active_all_blocks :: "nat set"
  br_deleted_all_blocks :: "nat set"
  br_allocated_blocks :: "nat set"
  br_deleted_blocks :: "nat set"
  br_orphaned_blocks :: "nat set"
  br_active_messages :: "'d active_message list"
  br_deleted_messages :: "'d deleted_message list"
  br_orphaned_messages :: "orphaned_message list"

text \<open>\<^verbatim>\<open>key=lambda x: x['date'] if x['date'] else datetime.min\<close>; \<open>datetime_min\<close> is the
  library's \<^verbatim>\<open>datetime.min\<close>, and the order on dates the library's.\<close>

definition date_key :: "'d \<Rightarrow> 'd option \<Rightarrow> 'd" where
  "date_key datetime_min d = (case d of Some x \<Rightarrow> x | None \<Rightarrow> datetime_min)"

text \<open>The outer option is an exception; the inner one is the \<^verbatim>\<open>None\<close> the function
  returns when \<^verbatim>\<open>read_msginfo\<close> does.\<close>

definition scan_database_bulletin ::
  "(pystr \<Rightarrow> 'd option) \<Rightarrow> 'd::linorder \<Rightarrow> byte list \<Rightarrow> 'd bulletin_result option option" where
  "scan_database_bulletin strptime datetime_min data =
     do { header \<leftarrow> read_msginfo data;
          (case header of
             None \<Rightarrow> Some None
           | Some msginfo \<Rightarrow>
               (let data_offset = mi_data_offset msginfo;
                    data_area_size = int (length data) - int data_offset;
                    total_blocks = data_area_size div 128;
                    max_entries = mi_max_dir_entries msginfo;
                    dir_offset = mi_dir_offset msginfo in
                do { (active, deleted, orphaned, deleted_all, used) \<leftarrow>
                       bulletin_phases strptime data dir_offset data_offset total_blocks max_entries;
                     let active_messages = map fst active;
                     let deleted_messages =
                       sort_key (\<lambda>x. date_key datetime_min (dm_date x)) (map fst deleted);
                     let orphaned_messages = map fst orphaned;
                     active_all \<leftarrow> active_blocks_loop data data_offset active_messages {};
                     Some (Some \<lparr> br_format = ''bulletin'',
                                  br_msginfo = msginfo,
                                  br_total_blocks = total_blocks,
                                  br_active_all_blocks = active_all,
                                  br_deleted_all_blocks = deleted_all,
                                  br_allocated_blocks = set (map am_block active_messages),
                                  br_deleted_blocks = set (map dm_block deleted_messages),
                                  br_orphaned_blocks = set (map om_block orphaned_messages),
                                  br_active_messages = active_messages,
                                  br_deleted_messages = deleted_messages,
                                  br_orphaned_messages = orphaned_messages \<rparr>) })) }"

section \<open>scan\_database\_email\<close>

record ('u, 'd) email_message =
  em_user_id :: nat
  em_user_info :: "'u option"
  em_message :: pystr
  em_date :: "'d option"

text \<open>\<^verbatim>\<open>msg.replace('\x00', '').strip()\<close>\<close>

definition clean_segment :: "pystr \<Rightarrow> pystr" where
  "clean_segment msg = py_strip (filter (\<lambda>c. c \<noteq> 0) msg)"

text \<open>\<^verbatim>\<open>for msg in messages\<close>, on the segments of one user's chain.\<close>

fun email_segments ::
  "(pystr \<Rightarrow> 'd option) \<Rightarrow> nat \<Rightarrow> 'u option \<Rightarrow> pystr list \<Rightarrow> ('u, 'd) email_message list \<Rightarrow>
   ('u, 'd) email_message list" where
  "email_segments strptime user_id user_info [] all_messages = all_messages"
| "email_segments strptime user_id user_info (msg # messages) all_messages =
     (let msg' = clean_segment msg in
      if length msg' < 20 then email_segments strptime user_id user_info messages all_messages
      else email_segments strptime user_id user_info messages
             (all_messages @ [\<lparr> em_user_id = user_id, em_user_info = user_info, em_message = msg',
                                 em_date = parse_date strptime msg' \<rparr>]))"

text \<open>\<^verbatim>\<open>users.get(user_id) if users else None\<close>: an empty dictionary has no entry either.\<close>

definition lookup_user :: "(nat \<rightharpoonup> 'u) option \<Rightarrow> nat \<Rightarrow> 'u option" where
  "lookup_user users user_id = (case users of None \<Rightarrow> None | Some m \<Rightarrow> m user_id)"

text \<open>\<^verbatim>\<open>for user_id in range(max_entries)\<close>; the chain is followed with an empty claim set.\<close>

fun email_loop ::
  "(pystr \<Rightarrow> 'd option) \<Rightarrow> byte list \<Rightarrow> (nat \<rightharpoonup> 'u) option \<Rightarrow> nat \<Rightarrow> nat \<Rightarrow> int \<Rightarrow> nat list \<Rightarrow>
   nat set \<Rightarrow> ('u, 'd) email_message list \<Rightarrow> (('u, 'd) email_message list \<times> nat set) option" where
  "email_loop strptime data users dir_offset data_offset total_blocks [] used all_messages =
     Some (all_messages, used)"
| "email_loop strptime data users dir_offset data_offset total_blocks (user_id # rest) used all_messages =
     (let entry_offset = dir_offset + (user_id * 4) in
      if entry_offset + 4 > length data then Some (all_messages, used)
      else
        (let entry = slice data entry_offset (entry_offset + 4) in
         if length entry < 4 then Some (all_messages, used)
         else do {
           block_num \<leftarrow> unpack_H (slice entry 2 4);
           if block_num = 0 then
             email_loop strptime data users dir_offset data_offset total_blocks rest used all_messages
           else do {
             (chain_text, chain_blocks) \<leftarrow>
               follow_chain_with_tracking data block_num total_blocks {} data_offset;
             email_loop strptime data users dir_offset data_offset total_blocks rest
               (used \<union> set chain_blocks)
               (email_segments strptime user_id (lookup_user users user_id)
                  (split_on 4 chain_text) all_messages) } }))"

record ('u, 'd) email_result =
  er_format :: string
  er_msginfo :: msginfo
  er_total_blocks :: int
  er_allocated_blocks :: "nat set"
  er_deleted_blocks :: "nat set"
  er_orphaned_blocks :: "nat set"
  er_active_messages :: "('u, 'd) email_message list"
  er_deleted_messages :: "('u, 'd) email_message list"
  er_orphaned_messages :: "('u, 'd) email_message list"

definition scan_database_email ::
  "(pystr \<Rightarrow> 'd option) \<Rightarrow> 'd::linorder \<Rightarrow> byte list \<Rightarrow> (nat \<rightharpoonup> 'u) option \<Rightarrow>
   ('u, 'd) email_result option option" where
  "scan_database_email strptime datetime_min data users =
     do { header \<leftarrow> read_msginfo data;
          (case header of
             None \<Rightarrow> Some None
           | Some msginfo \<Rightarrow>
               (let data_offset = mi_data_offset msginfo;
                    data_area_size = int (length data) - int data_offset;
                    total_blocks = data_area_size div 128;
                    max_entries = mi_max_dir_entries msginfo;
                    dir_offset = mi_dir_offset msginfo in
                do { (all_messages, used) \<leftarrow>
                       email_loop strptime data users dir_offset data_offset total_blocks
                         [0..<max_entries] {} [];
                     Some (Some \<lparr> er_format = ''email'',
                                  er_msginfo = msginfo,
                                  er_total_blocks = total_blocks,
                                  er_allocated_blocks = used,
                                  er_deleted_blocks = {},
                                  er_orphaned_blocks = {},
                                  er_active_messages =
                                    sort_key (\<lambda>x. date_key datetime_min (em_date x)) all_messages,
                                  er_deleted_messages = [],
                                  er_orphaned_messages = [] \<rparr>) })) }"

section \<open>The packed-text decoder as the specification describes it\<close>

text \<open>
  The description of the decoder in words: the input is cut into consecutive groups of
  7 bytes, a shorter rest is dropped; a group gives the low 7 bits of each of its bytes,
  then one more value whose bit \<open>k\<close> is the high bit of the byte \<open>k\<close> of the group;
  in the output every carriage return (13) is a line feed (10).
\<close>

fun groups_of_7 :: "byte list \<Rightarrow> byte list list" where
  "groups_of_7 xs = (if length xs < 7 then [] else take 7 xs # groups_of_7 (drop 7 xs))"

declare groups_of_7.simps [simp del]

definition packed_group :: "byte list \<Rightarrow> nat list" where
  "packed_group g =
     map (\<lambda>b. unat b mod 128) g @ [horner_sum of_bool 2 (map (\<lambda>b. bit b 7) g)]"

definition packed_text :: "byte list \<Rightarrow> pystr" where
  "packed_text d =
     map (\<lambda>c. if c = 13 then 10 else c) (concat (map packed_group (groups_of_7 d)))"

section \<open>Properties of decode\_7bit\<close>

lemma low7: "unat ((b::byte) AND 0x7F) = unat b mod 128"
proof -
  have m: "(0x7F::nat) = mask 7" by (simp add: mask_eq_exp_minus_1)
  have "unat (b AND 0x7F) = unat b AND 0x7F" by (simp add: unsigned_and_eq)
  also have "\<dots> = take_bit 7 (unat b)" by (simp only: m take_bit_eq_mask)
  also have "\<dots> = unat b mod 128" by (simp add: take_bit_eq_mod)
  finally show ?thesis .
qed

lemma bit128_nat: "bit (0x80::nat) n \<longleftrightarrow> n = 7"
proof -
  have "(0x80::nat) = 2 ^ 7" by simp
  then show ?thesis by (simp only: bit_exp_iff) (auto simp: possible_bit_def)
qed

lemma high_bit: "bit (unat ((b::byte) AND 0x80)) n \<longleftrightarrow> n = 7 \<and> bit b 7"
proof -
  have "unat (b AND 0x80) = unat b AND 0x80" by (simp add: unsigned_and_eq)
  then have "bit (unat (b AND 0x80)) n \<longleftrightarrow> bit (unat b) n \<and> bit (0x80::nat) n"
    by (simp only: bit_and_iff)
  also have "\<dots> \<longleftrightarrow> n = 7 \<and> bit b 7"
    by (auto simp add: bit128_nat bit_unsigned_iff)
  finally show ?thesis .
qed

lemma step_bits:
  "bit ((drop_bit 1 c) OR (drop_bit 0 (unat ((b::byte) AND 0x80)))) n
     \<longleftrightarrow> bit c (Suc n) \<or> (n = 7 \<and> bit b 7)"
  by (simp add: bit_or_iff bit_drop_bit_eq high_bit)

lemma fold_chars:
  "snd (fold group_step g (c, chars)) = chars @ map (\<lambda>b. unat b mod 128) g"
  by (induction g arbitrary: c chars) (simp_all add: group_step_def low7)

lemma fold_bits:
  "bit (fst (fold group_step g (c, chars))) n \<longleftrightarrow>
     bit c (n + length g) \<or> (n \<le> 7 \<and> 7 < n + length g \<and> bit (g ! (n + length g - 8)) 7)"
proof (induction g arbitrary: c chars n)
  case Nil
  then show ?case by auto
next
  case (Cons b g)
  have s: "fold group_step (b # g) (c, chars) =
      fold group_step g (drop_bit 1 c OR drop_bit 0 (unat (b AND 0x80)), chars @ [unat (b AND 0x7F)])"
    by (simp add: group_step_def)
  have i: "n + length (b # g) - 8 = (if n + length g = 7 then 0 else Suc (n + length g - 8))"
    if "7 < n + length (b # g)" using that by auto
  show ?case
    unfolding s Cons.IH step_bits using i by (cases "n + length g = 7") auto
qed

lemma decode_group_7: "length g = 7 \<Longrightarrow> decode_group g = packed_group g"
proof -
  assume l: "length g = 7"
  obtain c chars where f: "fold group_step g (0, []) = (c, chars)"
    by (cases "fold group_step g (0, [])")
  have ch: "chars = map (\<lambda>b. unat b mod 128) g" using fold_chars [of g 0 "[]"] f by simp
  have "drop_bit 1 c = horner_sum of_bool 2 (map (\<lambda>b. bit b 7) g)"
  proof (rule bit_eqI)
    fix n
    have "bit (drop_bit 1 c) n \<longleftrightarrow> bit c (Suc n)" by (simp add: bit_drop_bit_eq)
    also have "\<dots> \<longleftrightarrow> (Suc n \<le> 7 \<and> bit (g ! n) 7)"
      using fold_bits [of g 0 "[]" "Suc n"] f l by auto
    also have "\<dots> \<longleftrightarrow> bit (horner_sum of_bool 2 (map (\<lambda>b. bit b 7) g) :: nat) n"
      using l by (auto simp add: bit_horner_sum_bit_iff)
    finally show "bit (drop_bit 1 c) n
        \<longleftrightarrow> bit (horner_sum of_bool 2 (map (\<lambda>b. bit b 7) g) :: nat) n" .
  qed
  then show ?thesis by (simp add: decode_group_def f ch packed_group_def)
qed

lemma emit_chars_full: "emit_chars False cs result = (result @ cs, False)"
  by (induction cs arbitrary: result) simp_all

lemma decode_loop_full:
  "decode_loop d False i result = result @ concat (map packed_group (groups_of_7 (drop i d)))"
proof (induction d "False" i result rule: decode_loop.induct)
  case (1 d i result)
  show ?case
  proof (cases "i + 6 < length d")
    case True
    then have l: "length (slice d i (i + 7)) = 7" by (simp add: slice_def)
    have g: "groups_of_7 (drop i d) = slice d i (i + 7) # groups_of_7 (drop (i + 7) d)"
      using True by (subst groups_of_7.simps) (simp add: slice_def add.commute)
    show ?thesis
      using True 1 [OF True emit_chars_full [symmetric] refl]
      by (subst decode_loop.simps) (simp add: emit_chars_full decode_group_7 [OF l] g)
  next
    case False
    then have "length (drop i d) < 7" by simp
    then have "groups_of_7 (drop i d) = []" by (subst groups_of_7.simps) simp
    then show ?thesis using False
      by (subst decode_loop.simps) simp
  qed
qed

lemma packed_group_bound: "c \<in> set (packed_group g) \<Longrightarrow> c < 2 ^ max 7 (length g)"
proof -
  assume "c \<in> set (packed_group g)"
  then consider "c \<in> (\<lambda>b. unat b mod 128) ` set g"
    | "c = horner_sum of_bool 2 (map (\<lambda>b. bit b 7) g)"
    by (auto simp add: packed_group_def)
  then show ?thesis
  proof cases
    case 1
    then have "c < 2 ^ 7" by auto
    also have "\<dots> \<le> (2::nat) ^ max 7 (length g)" by (rule power_increasing) simp_all
    finally show ?thesis .
  next
    case 2
    have "c < 2 ^ length (map (\<lambda>b. bit b 7) g)" unfolding 2 by (rule horner_sum_bound)
    also have "\<dots> \<le> (2::nat) ^ max 7 (length g)" by (rule power_increasing) simp_all
    finally show ?thesis .
  qed
qed

lemma groups_of_7_length: "g \<in> set (groups_of_7 d) \<Longrightarrow> length g = 7"
proof (induction d rule: groups_of_7.induct)
  case (1 xs)
  then show ?case by (subst (asm) (2) groups_of_7.simps) (auto split: if_splits)
qed

lemma packed_chars_ascii: "c \<in> set (concat (map packed_group (groups_of_7 d))) \<Longrightarrow> c < 128"
  using packed_group_bound groups_of_7_length by fastforce

lemma py_bytes_ok: "(\<And>c. c \<in> set r \<Longrightarrow> c < 128) \<Longrightarrow> py_bytes r = Some r"
proof -
  assume a: "\<And>c. c \<in> set r \<Longrightarrow> c < 128"
  have "c < 256" if "c \<in> set r" for c using a [OF that] by simp
  then show ?thesis by (simp add: py_bytes_def list_all_iff)
qed

lemma ascii_decode_replace_id:
  "(\<And>c. c \<in> set r \<Longrightarrow> c < 128) \<Longrightarrow> ascii_decode_replace r = r"
  by (induction r) (auto simp add: ascii_decode_replace_def)

lemma decode_7bit_full: "decode_7bit d False = Some (packed_text d)"
proof -
  let ?r = "concat (map packed_group (groups_of_7 d))"
  have r: "decode_loop d False 0 [] = ?r" by (simp add: decode_loop_full)
  have "py_bytes ?r = Some ?r" by (rule py_bytes_ok) (rule packed_chars_ascii)
  moreover have "ascii_decode_replace ?r = ?r"
    by (rule ascii_decode_replace_id) (rule packed_chars_ascii)
  ultimately show ?thesis by (simp add: decode_7bit_def r packed_text_def replace_cr_def)
qed

lemma groups_of_7_count: "length (groups_of_7 d) = length d div 7"
proof (induction d rule: groups_of_7.induct)
  case (1 xs)
  show ?case
  proof (cases "length xs < 7")
    case True
    then show ?thesis by (subst groups_of_7.simps) simp
  next
    case False
    then have "length (groups_of_7 (drop 7 xs)) = (length xs - 7) div 7" using 1 by simp
    then show ?thesis using False by (subst groups_of_7.simps) (simp add: le_div_geq)
  qed
qed

lemma groups_of_7_concat: "concat (groups_of_7 d) = take (7 * (length d div 7)) d"
proof (induction d rule: groups_of_7.induct)
  case (1 xs)
  show ?case
  proof (cases "length xs < 7")
    case True
    then show ?thesis by (subst groups_of_7.simps) simp
  next
    case False
    then have ih: "concat (groups_of_7 (drop 7 xs)) = take (7 * ((length xs - 7) div 7)) (drop 7 xs)"
      using 1 by simp
    have d: "length xs div 7 = Suc ((length xs - 7) div 7)" using False by (simp add: le_div_geq)
    have "take (7 * (length xs div 7)) xs = take 7 xs @ take (7 * ((length xs - 7) div 7)) (drop 7 xs)"
      unfolding d by (simp add: take_add [symmetric] del: take_add)
    then show ?thesis using False ih by (subst groups_of_7.simps) simp
  qed
qed

lemma packed_text_length: "length (packed_text d) = 8 * (length d div 7)"
proof -
  have "\<And>g. g \<in> set (groups_of_7 d) \<Longrightarrow> length (packed_group g) = 8"
    using groups_of_7_length by (simp add: packed_group_def)
  then have "map length (map packed_group (groups_of_7 d)) = replicate (length (groups_of_7 d)) 8"
    by (simp add: map_replicate_const [symmetric] del: map_replicate_const cong: map_cong) 
  then show ?thesis
    by (simp add: packed_text_def length_concat groups_of_7_count sum_list_replicate del: map_map)
qed

text \<open>
  Claim C3. In decode-fully mode the decoder never fails and returns, for every input,
  the text of the description above: one group of 8 values for each of the
  \<open>length data div 7\<close> consecutive 7-byte groups (the 7 low-7-bit values, then the
  value built from the 7 high bits), nothing for a rest shorter than 7 bytes, and no
  carriage return in the output (each is a line feed).
\<close>

theorem decode_7bit_decode_fully:
  "decode_7bit data False = Some (packed_text data)
   \<and> concat (groups_of_7 data) = take (7 * (length data div 7)) data
   \<and> length (packed_text data) = 8 * (length data div 7)
   \<and> 13 \<notin> set (packed_text data)"
proof -
  have "13 \<notin> set (packed_text data)" by (auto simp add: packed_text_def)
  then show ?thesis
    using decode_7bit_full groups_of_7_concat packed_text_length by blast
qed

theorem decode_7bit_decode_fully_example:
  "decode_7bit [0xCD, 0xD3, 0xC7, 0x31, 0x0D, 0x4D, 0xD3, 0x32, 0x00] False
     = Some [77, 83, 71, 49, 10, 77, 83, 71]"
proof -
  have "decode_7bit [0xCD, 0xD3, 0xC7, 0x31, 0x0D, 0x4D, 0xD3, 0x32, 0x00] False
      = Some (packed_text [0xCD, 0xD3, 0xC7, 0x31, 0x0D, 0x4D, 0xD3, 0x32, 0x00])"
    using decode_7bit_decode_fully by blast
  also have "packed_text [0xCD, 0xD3, 0xC7, 0x31, 0x0D, 0x4D, 0xD3, 0x32, 0x00]
      = [77, 83, 71, 49, 10, 77, 83, 71]"
    by code_simp
  finally show ?thesis .
qed

subsection \<open>No exception in the decoder and in the chain follower\<close>

lemma emit_chars_set:
  "set (fst (emit_chars s cs r)) \<subseteq> set r \<union> set cs"
proof (induction cs arbitrary: r)
  case Nil
  then show ?case by simp
next
  case (Cons a cs)
  show ?case using Cons.IH [of "r @ [a]"] by auto
qed

lemma decode_group_ascii:
  assumes "i + 6 < length d" "c \<in> set (decode_group (slice d i (i + 7)))"
  shows "c < 128"
proof -
  have l: "length (slice d i (i + 7)) = 7" using assms(1) by (simp add: slice_def)
  have "c < 2 ^ max 7 (length (slice d i (i + 7)))"
    using assms(2) decode_group_7 [OF l] packed_group_bound by simp
  then show ?thesis using l by simp
qed

lemma decode_loop_ascii:
  "(\<And>c. c \<in> set result \<Longrightarrow> c < 128) \<Longrightarrow> c \<in> set (decode_loop d s i result) \<Longrightarrow> c < 128"
proof (induction d s i result rule: decode_loop.induct)
  case (1 d s i result)
  show ?case
  proof (cases "i + 6 < length d")
    case True
    obtain r' fl where e: "emit_chars s (decode_group (slice d i (i + 7))) result = (r', fl)"
      by (cases "emit_chars s (decode_group (slice d i (i + 7))) result")
    have r': "x < 128" if "x \<in> set r'" for x
    proof -
      have "x \<in> set result \<union> set (decode_group (slice d i (i + 7)))"
        using emit_chars_set [of s "decode_group (slice d i (i + 7))" result] e that by auto
      then show ?thesis using "1.prems"(1) decode_group_ascii [OF True] by blast
    qed
    show ?thesis
    proof (cases fl)
      case True
      then have "decode_loop d s i result = r'"
        using \<open>i + 6 < length d\<close> e by (subst decode_loop.simps) simp
      then show ?thesis using r' "1.prems"(2) by simp
    next
      case False
      then have "decode_loop d s i result = decode_loop d s (i + 7) r'"
        using True e by (subst decode_loop.simps) simp
      then show ?thesis
        using "1.IH" [OF True e [symmetric] _ r'] False "1.prems"(2) by simp
    qed
  next
    case False
    then have "decode_loop d s i result = result" by (subst decode_loop.simps) simp
    then show ?thesis using 1 by simp
  qed
qed

lemma decode_7bit_total: "\<exists>t. decode_7bit d s = Some t"
proof -
  have "py_bytes (decode_loop d s 0 []) = Some (decode_loop d s 0 [])"
    by (rule py_bytes_ok) (rule decode_loop_ascii [of "[]"], simp_all)
  then show ?thesis by (simp add: decode_7bit_def)
qed

lemma unpack_H_slice:
  "a + 2 \<le> length d \<Longrightarrow> b = a + 2 \<Longrightarrow> \<exists>n. unpack_H (slice d a b) = Some n"
proof -
  assume "a + 2 \<le> length d" "b = a + 2"
  then have "length (slice d a b) = 2" by (simp add: slice_def)
  then obtain x y where "slice d a b = [x, y]"
    by (metis (no_types, opaque_lifting) One_nat_def Suc_1 length_0_conv length_Suc_conv)
  then show ?thesis by (simp add: unpack_H_def)
qed

lemma probe_sequential_total: "\<exists>r. probe_sequential data total_blocks stop_blocks data_offset c = Some r"
proof -
  obtain t where "decode_7bit (slice data (data_offset + (c + 1 - 1) * 128) (data_offset + (c + 1 - 1) * 128 + 126)) False = Some t"
    using decode_7bit_total by blast
  then show ?thesis by (simp add: probe_sequential_def Let_def)
qed

lemma follow_body_total: "\<exists>r. follow_body data total_blocks stop_blocks data_offset st = Some r"
proof -
  let ?bo = "data_offset + (current_block st - 1) * 128"
  obtain t where t: "decode_7bit (slice data ?bo (?bo + 126)) False = Some t"
    using decode_7bit_total by blast
  obtain r where r: "probe_sequential data total_blocks stop_blocks data_offset (current_block st) = Some r"
    using probe_sequential_total by blast
  show ?thesis
  proof (cases "?bo + 128 > length data")
    case True
    then show ?thesis by (simp add: follow_body_def Let_def)
  next
    case False
    then have "?bo + 126 + 2 \<le> length data" by simp
    from unpack_H_slice [OF this, of "?bo + 128"] obtain n where
      n: "unpack_H (slice data (?bo + 126) (?bo + 128)) = Some n" by auto
    show ?thesis
      using n t r by (cases r) (simp_all add: follow_body_def Let_def)
  qed
qed

lemma follow_loop_total: "\<exists>st'. follow_loop data total_blocks stop_blocks data_offset st = Some st'"
proof (induction data total_blocks stop_blocks data_offset st rule: follow_loop.induct)
  case (1 data total_blocks stop_blocks data_offset st)
  show ?case
  proof (cases "current_block st \<noteq> 0 \<and> current_block st \<notin> set (visited st)")
    case True
    obtain r where r: "follow_body data total_blocks stop_blocks data_offset st = Some r"
      using follow_body_total by blast
    show ?thesis
    proof (cases r)
      case (Break st')
      then show ?thesis using True r by (subst follow_loop.simps) simp
    next
      case (Continue st')
      then show ?thesis using True r "1.IH" [OF True r Continue]
        by (subst follow_loop.simps) simp
    qed
  next
    case False
    then show ?thesis by (subst follow_loop.simps) auto
  qed
qed

lemma follow_chain_total:
  "\<exists>text blocks. follow_chain_with_tracking data start_block total_blocks stop_blocks data_offset = Some (text, blocks)"
proof -
  obtain st where "follow_loop data total_blocks stop_blocks data_offset (follow_init start_block) = Some st"
    using follow_loop_total by blast
  then show ?thesis by (simp add: follow_chain_with_tracking_def)
qed

text \<open>
  Claim C8. The decoder (in both modes) and the chain follower return a value on every
  input: no \<^verbatim>\<open>ValueError\<close> from \<^verbatim>\<open>bytes(result)\<close>, no \<^verbatim>\<open>struct.error\<close> from a
  next-pointer read past the buffer, and the loop ends. A block out of range, a block
  cut off by the end of the buffer, a cycle and a self-reference all end in a result.
\<close>

theorem codec_and_follower_total:
  "(\<exists>t. decode_7bit payload stop_at_null = Some t)
   \<and> (\<exists>text_out blocks.
        follow_chain_with_tracking data start_block total_blocks stop_blocks data_offset
          = Some (text_out, blocks))"
  using decode_7bit_total follow_chain_total by blast

text \<open>An instance: a payload of bytes above 127, and a buffer of one block whose
  next-pointer is its own number, read with a start block out of range.\<close>

theorem codec_and_follower_total_example:
  "(\<exists>t. decode_7bit (replicate 9 0xFF) True = Some t)
   \<and> (\<exists>text_out blocks.
        follow_chain_with_tracking (replicate 126 0xC1 @ [1, 0]) 7 1 {} 0
          = Some (text_out, blocks))"
  by (rule codec_and_follower_total)

subsection \<open>Invariants of the chain follower's loop\<close>

definition ctl_state :: "'a ctl \<Rightarrow> 'a" where
  "ctl_state r = (case r of Break x \<Rightarrow> x | Continue x \<Rightarrow> x)"

definition consume :: "follow_state \<Rightarrow> follow_state" where
  "consume st = st\<lparr>visited := visited st @ [current_block st],
                   blocks_used := blocks_used st @ [current_block st]\<rparr>"

lemma follow_body_claimed:
  "current_block st \<in> stop_blocks \<Longrightarrow>
   follow_body data total_blocks stop_blocks data_offset st = Some (Break st)"
  by (simp add: follow_body_def)

lemma follow_body_consumes:
  assumes "follow_body data total_blocks stop_blocks data_offset st = Some r"
    and "current_block st \<notin> stop_blocks"
  shows "visited (ctl_state r) = visited st @ [current_block st]
       \<and> blocks_used (ctl_state r) = blocks_used st @ [current_block st]"
  using assms
  by (auto simp add: follow_body_def Let_def ctl_state_def split: if_splits bind_splits option.splits)

lemma follow_loop_rule:
  assumes run: "follow_loop data total_blocks stop_blocks data_offset st = Some st'"
    and init: "I st"
    and cont: "\<And>s s'. I s \<Longrightarrow> current_block s \<noteq> 0 \<Longrightarrow> current_block s \<notin> set (visited s) \<Longrightarrow>
        follow_body data total_blocks stop_blocks data_offset s = Some (Continue s') \<Longrightarrow> I s'"
    and brk: "\<And>s s'. I s \<Longrightarrow> current_block s \<noteq> 0 \<Longrightarrow> current_block s \<notin> set (visited s) \<Longrightarrow>
        follow_body data total_blocks stop_blocks data_offset s = Some (Break s') \<Longrightarrow> Q s'"
    and exit: "\<And>s. I s \<Longrightarrow> \<not> (current_block s \<noteq> 0 \<and> current_block s \<notin> set (visited s)) \<Longrightarrow> Q s"
  shows "Q st'"
  using assms
proof (induction data total_blocks stop_blocks data_offset st rule: follow_loop.induct)
  case (1 data total_blocks stop_blocks data_offset st)
  show ?case
  proof (cases "current_block st \<noteq> 0 \<and> current_block st \<notin> set (visited st)")
    case True
    obtain r where r: "follow_body data total_blocks stop_blocks data_offset st = Some r"
      using follow_body_total by blast
    show ?thesis
    proof (cases r)
      case (Break s')
      then have "st' = s'" using True r "1.prems"(1) by (subst (asm) follow_loop.simps) simp
      then show ?thesis using "1.prems"(4) [OF "1.prems"(2) _ _ r [unfolded Break]] True by simp
    next
      case (Continue s')
      then have run': "follow_loop data total_blocks stop_blocks data_offset s' = Some st'"
        using True r "1.prems"(1) by (subst (asm) follow_loop.simps) simp
      have i': "I s'" using "1.prems"(3) [OF "1.prems"(2) _ _ r [unfolded Continue]] True by simp
      show ?thesis
        by (rule "1.IH" [OF True r Continue run' i' "1.prems"(3,4,5)])
    qed
  next
    case False
    then have "st' = st" using "1.prems"(1) by (subst (asm) follow_loop.simps) auto
    then show ?thesis using "1.prems"(5) [OF "1.prems"(2) False] by simp
  qed
qed

lemma card_in_range_blocks: "card (in_range_blocks t) = nat t"
proof -
  have "in_range_blocks t = {1..nat t}" by (auto simp add: in_range_blocks_def)
  then show ?thesis by simp
qed

lemma follow_loop_distinct_bound:
  assumes "follow_loop data total_blocks stop_blocks data_offset st = Some st'"
    and "distinct (visited st)" "set (visited st) \<subseteq> in_range_blocks total_blocks"
  shows "distinct (visited st') \<and> length (visited st') \<le> nat total_blocks + 1"
proof (rule follow_loop_rule [OF assms(1),
    where I = "\<lambda>s. distinct (visited s) \<and> set (visited s) \<subseteq> in_range_blocks total_blocks"])
  show "distinct (visited st) \<and> set (visited st) \<subseteq> in_range_blocks total_blocks"
    using assms by simp
next
  fix s s'
  assume i: "distinct (visited s) \<and> set (visited s) \<subseteq> in_range_blocks total_blocks"
    and c: "current_block s \<noteq> 0" "current_block s \<notin> set (visited s)"
    and b: "follow_body data total_blocks stop_blocks data_offset s = Some (Continue s')"
  from follow_body_Continue [OF b] c i
  show "distinct (visited s') \<and> set (visited s') \<subseteq> in_range_blocks total_blocks"
    by (auto simp add: in_range_blocks_def)
next
  fix s :: follow_state
  assume i: "distinct (visited s) \<and> set (visited s) \<subseteq> in_range_blocks total_blocks"
  have "length (visited s) = card (set (visited s))" using i by (simp add: distinct_card)
  also have "\<dots> \<le> card (in_range_blocks total_blocks)"
    using i finite_in_range_blocks by (simp add: card_mono)
  finally have l: "length (visited s) \<le> nat total_blocks" by (simp add: card_in_range_blocks)
  {
    assume "\<not> (current_block s \<noteq> 0 \<and> current_block s \<notin> set (visited s))"
    show "distinct (visited s) \<and> length (visited s) \<le> nat total_blocks + 1"
      using i l by simp
  }
  {
    fix s'
    assume c: "current_block s \<noteq> 0" "current_block s \<notin> set (visited s)"
      and b: "follow_body data total_blocks stop_blocks data_offset s = Some (Break s')"
    show "distinct (visited s') \<and> length (visited s') \<le> nat total_blocks + 1"
    proof (cases "current_block s \<in> stop_blocks")
      case True
      then have "s' = s" using b follow_body_claimed [OF True] by simp
      then show ?thesis using i l by simp
    next
      case False
      from follow_body_consumes [OF b False]
      have "visited s' = visited s @ [current_block s]" by (simp add: ctl_state_def)
      then show ?thesis using i l c by simp
    qed
  }
qed

lemma follow_iters_bound:
  "follow_iters data total_blocks stop_blocks data_offset st
     \<le> card (in_range_blocks total_blocks - set (visited st)) + 1"
proof (induction data total_blocks stop_blocks data_offset st rule: follow_iters.induct)
  case (1 data total_blocks stop_blocks data_offset st)
  show ?case
  proof (cases "current_block st \<noteq> 0 \<and> current_block st \<notin> set (visited st)")
    case True
    obtain r where r: "follow_body data total_blocks stop_blocks data_offset st = Some r"
      using follow_body_total by blast
    show ?thesis
    proof (cases r)
      case (Break s')
      then show ?thesis using True r by (subst follow_iters.simps) simp
    next
      case (Continue s')
      have "follow_iters data total_blocks stop_blocks data_offset st
          = 1 + follow_iters data total_blocks stop_blocks data_offset s'"
        using True r Continue by (subst follow_iters.simps) simp
      also have "\<dots> \<le> 1 + (card (in_range_blocks total_blocks - set (visited s')) + 1)"
        using "1.IH" [OF True r Continue] by simp
      also have "\<dots> \<le> card (in_range_blocks total_blocks - set (visited st)) + 1"
        using follow_measure [OF _ _ r [unfolded Continue]] True by simp
      finally show ?thesis .
    qed
  next
    case False
    then show ?thesis by (subst follow_iters.simps) auto
  qed
qed

text \<open>
  Claim C2, as amended. On every buffer, start block and claim set the loop of the chain
  follower ends with a state; no block number is in \<open>visited\<close> twice; at most
  \<open>total_blocks + 1\<close> blocks are visited and the loop body is entered at most
  \<open>total_blocks + 1\<close> times (\<open>total_blocks\<close> counted as 0 when negative): the blocks
  in range, each once, and at most one more run of the body, at which the walk stops.
\<close>

theorem follow_chain_terminates_bounded:
  "\<exists>st. follow_loop data total_blocks stop_blocks data_offset (follow_init start_block) = Some st
     \<and> distinct (visited st)
     \<and> length (visited st) \<le> nat total_blocks + 1
     \<and> follow_iters data total_blocks stop_blocks data_offset (follow_init start_block)
         \<le> nat total_blocks + 1"
proof -
  obtain st where
    st: "follow_loop data total_blocks stop_blocks data_offset (follow_init start_block) = Some st"
    using follow_loop_total by blast
  have "distinct (visited st) \<and> length (visited st) \<le> nat total_blocks + 1"
    by (rule follow_loop_distinct_bound [OF st]) (simp_all add: follow_init_def)
  moreover have "follow_iters data total_blocks stop_blocks data_offset (follow_init start_block)
      \<le> card (in_range_blocks total_blocks - set (visited (follow_init start_block))) + 1"
    by (rule follow_iters_bound)
  then have "follow_iters data total_blocks stop_blocks data_offset (follow_init start_block)
      \<le> nat total_blocks + 1"
    by (simp add: follow_init_def card_in_range_blocks)
  ultimately show ?thesis using st by blast
qed

text \<open>A store of 8 header bytes and one block whose next-pointer is 2: a cycle-free
  chain that leaves the data area.\<close>

definition dangling_store :: "byte list" where
  "dangling_store = replicate 8 0 @ [0x41] @ replicate 125 0 @ [2, 0]"

theorem follow_chain_terminates_bounded_example:
  "\<exists>st. follow_loop dangling_store 1 {} 8 (follow_init 1) = Some st
     \<and> distinct (visited st)
     \<and> length (visited st) \<le> nat 1 + 1
     \<and> follow_iters dangling_store 1 {} 8 (follow_init 1) \<le> nat 1 + 1"
  by (rule follow_chain_terminates_bounded)

text \<open>The claim as stated fails there: with \<open>total_blocks = 1\<close> the walk visits the
  two blocks 1 and 2, in two runs of the loop body.\<close>

theorem follow_chain_visits_more_than_total_blocks:
  "(int (length dangling_store) - 8) div 128 = 1
   \<and> follow_chain_with_tracking dangling_store 1 1 {} 8 = Some ([65], [1, 2])
   \<and> \<not> follow_iters dangling_store 1 {} 8 (follow_init 1) \<le> 1"
  by code_simp



lemma follow_loop_keeps_blocks:
  assumes "follow_loop data total_blocks stop_blocks data_offset st = Some st'"
    and "x \<in> set (blocks_used st)"
  shows "x \<in> set (blocks_used st')"
proof (rule follow_loop_rule [OF assms(1), where I = "\<lambda>s. x \<in> set (blocks_used s)"])
  show "x \<in> set (blocks_used st)" by (rule assms(2))
next
  fix s s'
  assume i: "x \<in> set (blocks_used s)"
    and b: "follow_body data total_blocks stop_blocks data_offset s = Some (Continue s')"
  have n: "current_block s \<notin> stop_blocks" using b follow_body_claimed by fastforce
  from follow_body_consumes [OF b n] i show "x \<in> set (blocks_used s')"
    by (simp add: ctl_state_def)
next
  fix s s'
  assume i: "x \<in> set (blocks_used s)"
    and b: "follow_body data total_blocks stop_blocks data_offset s = Some (Break s')"
  show "x \<in> set (blocks_used s')"
  proof (cases "current_block s \<in> stop_blocks")
    case True
    then show ?thesis using b i follow_body_claimed [OF True] by simp
  next
    case False
    from follow_body_consumes [OF b False] i show ?thesis by (simp add: ctl_state_def)
  qed
qed

lemma follow_loop_step:
  assumes "current_block st \<noteq> 0" "current_block st \<notin> set (visited st)"
  shows "follow_loop data total_blocks stop_blocks data_offset st =
     (case follow_body data total_blocks stop_blocks data_offset st of
        None \<Rightarrow> None
      | Some (Break st') \<Rightarrow> Some st'
      | Some (Continue st') \<Rightarrow> follow_loop data total_blocks stop_blocks data_offset st')"
  using assms by (subst follow_loop.simps) simp

text \<open>What the follower returns, from the final state of the loop.\<close>

lemma follow_chain_result:
  assumes "follow_chain_with_tracking data start_block total_blocks stop_blocks data_offset
             = Some (text_out, blocks)"
  shows "\<exists>st. follow_loop data total_blocks stop_blocks data_offset (follow_init start_block) = Some st
           \<and> text_out = full_message (message_parts st) \<and> blocks = blocks_used st"
  using assms by (auto simp add: follow_chain_with_tracking_def split: bind_splits)



lemma follow_chain_claimed_start:
  assumes "start_block \<in> stop_blocks"
  shows "follow_chain_with_tracking data start_block total_blocks stop_blocks data_offset
           = Some ([], [])"
proof (cases "start_block = 0")
  case True
  then show ?thesis
    by (simp add: follow_chain_with_tracking_def follow_loop.simps follow_init_def full_message_def)
next
  case False
  have "follow_loop data total_blocks stop_blocks data_offset (follow_init start_block)
      = Some (follow_init start_block)"
    using False follow_body_claimed [of "follow_init start_block" stop_blocks] assms
    by (subst follow_loop_step) (simp_all add: follow_init_def)
  then show ?thesis
    by (simp add: follow_chain_with_tracking_def follow_init_def full_message_def)
qed

lemma follow_chain_takes_start:
  assumes "follow_chain_with_tracking data start_block total_blocks stop_blocks data_offset
             = Some (text_out, blocks)"
    and "start_block \<noteq> 0" "start_block \<notin> stop_blocks"
  shows "start_block \<in> set blocks"
proof -
  let ?i = "follow_init start_block"
  from follow_chain_result [OF assms(1)] obtain st where
    st: "follow_loop data total_blocks stop_blocks data_offset ?i = Some st"
    and b: "blocks = blocks_used st" by blast
  obtain r where r: "follow_body data total_blocks stop_blocks data_offset ?i = Some r"
    using follow_body_total by blast
  have c: "current_block ?i = start_block" "visited ?i = []" by (simp_all add: follow_init_def)
  from follow_body_consumes [OF r] assms(3) c
  have u: "start_block \<in> set (blocks_used (ctl_state r))" by simp
  have s: "follow_loop data total_blocks stop_blocks data_offset ?i =
      (case r of Break st' \<Rightarrow> Some st'
       | Continue st' \<Rightarrow> follow_loop data total_blocks stop_blocks data_offset st')"
    using assms(2) c r by (subst follow_loop_step) simp_all
  show ?thesis
  proof (cases r)
    case (Break s')
    then show ?thesis using s st u b by (simp add: ctl_state_def)
  next
    case (Continue s')
    then have "follow_loop data total_blocks stop_blocks data_offset s' = Some st"
      using s st by simp
    from follow_loop_keeps_blocks [OF this] u Continue show ?thesis
      using b by (simp add: ctl_state_def)
  qed
qed

subsection \<open>Blocks the walk rejects, and the self-reference probe\<close>

text \<open>The payload and the next-pointer of a block, and the state after a block's text
  has been appended.\<close>

definition block_payload :: "byte list \<Rightarrow> nat \<Rightarrow> nat \<Rightarrow> byte list" where
  "block_payload data data_offset b =
     slice data (data_offset + (b - 1) * 128) (data_offset + (b - 1) * 128 + 126)"

definition next_pointer :: "byte list \<Rightarrow> nat \<Rightarrow> nat \<Rightarrow> nat option" where
  "next_pointer data data_offset b =
     unpack_H (slice data (data_offset + (b - 1) * 128 + 126) (data_offset + (b - 1) * 128 + 128))"

definition block_in_range :: "byte list \<Rightarrow> nat \<Rightarrow> int \<Rightarrow> nat \<Rightarrow> bool" where
  "block_in_range data data_offset total_blocks b =
     (data_offset + (b - 1) * 128 + 128 \<le> length data \<and> int b \<le> total_blocks)"

definition append_block :: "byte list \<Rightarrow> nat \<Rightarrow> follow_state \<Rightarrow> follow_state" where
  "append_block data data_offset st =
     (consume st)\<lparr>message_parts := message_parts st @
        [if first_block st then packed_text (block_payload data data_offset (current_block st))
         else lstrip_nul (packed_text (block_payload data data_offset (current_block st)))],
      first_block := False\<rparr>"

text \<open>The probe of the sequential block, in the words of the amended claim C5.\<close>

definition probe_accepts :: "byte list \<Rightarrow> nat \<Rightarrow> int \<Rightarrow> nat set \<Rightarrow> nat \<Rightarrow> bool" where
  "probe_accepts data data_offset total_blocks stop_blocks b =
     (block_in_range data data_offset total_blocks b \<and> b \<notin> stop_blocks
      \<and> length (py_strip (packed_text (block_payload data data_offset b))) > 10
      \<and> \<not> is_message_start (packed_text (block_payload data data_offset b)))"

text \<open>The count the claim C5 speaks of.\<close>

definition non_whitespace_count :: "pystr \<Rightarrow> nat" where
  "non_whitespace_count s = length (filter (\<lambda>c. \<not> is_space c) s)"

lemma probe_sequential_eq:
  "probe_sequential data total_blocks stop_blocks data_offset c =
     Some (if probe_accepts data data_offset total_blocks stop_blocks (c + 1) then Some (c + 1) else None)"
  by (auto simp add: probe_sequential_def probe_accepts_def block_in_range_def block_payload_def
        decode_7bit_full Let_def)


lemma follow_body_self_reference:
  assumes "current_block st \<notin> stop_blocks"
    and "block_in_range data data_offset total_blocks (current_block st)"
    and "first_block st \<or> \<not> is_message_start (packed_text (block_payload data data_offset (current_block st)))"
    and "next_pointer data data_offset (current_block st) = Some (current_block st)"
    and "current_block st \<noteq> 0"
  shows "follow_body data total_blocks stop_blocks data_offset st =
     (if probe_accepts data data_offset total_blocks stop_blocks (current_block st + 1)
      then Some (Continue ((append_block data data_offset st)\<lparr>current_block := current_block st + 1\<rparr>))
      else Some (Break (append_block data data_offset st)))"
  using assms
  by (auto simp add: follow_body_def block_in_range_def block_payload_def next_pointer_def
      append_block_def consume_def Let_def decode_7bit_full probe_sequential_eq)


text \<open>A store of two blocks: block 1 links to block 2, whose payload decodes to the
  four lines \<open>S\<close>, \<open>1,\<close>, \<open>2,\<close> and \<open>Date:\<close>, a message start.\<close>

definition start_payload :: "byte list" where
  "start_payload =
     [0x53, 0x0D, 0x31, 0x2C, 0x0D, 0x32, 0x2C, 0x0D, 0x44, 0x61, 0x74, 0x65, 0x3A, 0x00]
     @ replicate 112 0"




text \<open>
  Claim C5, as amended. The loop body runs on a block that is in range, not claimed,
  whose text is appended (it is the first block or does not decode to a message
  start) and whose next-pointer is its own number. Then the walk resumes at the next
  sequential block if that block is in range, is not in the claim set, does not decode
  to a message start, and its decoded text is longer than 10 characters after the
  whitespace at its two ends is stripped; otherwise the walk stops.
\<close>

theorem self_reference_probe:
  assumes "current_block st \<noteq> 0" "current_block st \<notin> set (visited st)"
    and "current_block st \<notin> stop_blocks"
    and "block_in_range data data_offset total_blocks (current_block st)"
    and "first_block st
         \<or> \<not> is_message_start (packed_text (block_payload data data_offset (current_block st)))"
    and "next_pointer data data_offset (current_block st) = Some (current_block st)"
  shows "follow_loop data total_blocks stop_blocks data_offset st =
     (if probe_accepts data data_offset total_blocks stop_blocks (current_block st + 1)
      then follow_loop data total_blocks stop_blocks data_offset
             ((append_block data data_offset st)\<lparr>current_block := current_block st + 1\<rparr>)
      else Some (append_block data data_offset st))"
  using assms
  by (simp add: follow_loop_step follow_body_self_reference)

text \<open>Block 1 points to itself; block 2 holds 126 letters.\<close>

definition selfref_store :: "byte list" where
  "selfref_store = replicate 8 0 @ ([0x41] @ replicate 125 0 @ [1, 0]) @ (replicate 126 0x42 @ [0, 0])"

theorem self_reference_probe_example:
  "probe_accepts selfref_store 8 2 {} 2
   \<and> follow_loop selfref_store 2 {} 8 (follow_init 1) =
       follow_loop selfref_store 2 {} 8 ((append_block selfref_store 8 (follow_init 1))\<lparr>current_block := 2\<rparr>)
   \<and> follow_chain_with_tracking selfref_store 1 2 {} 8 = Some ([65], [1, 2])"
proof -
  have h: "current_block (follow_init 1) \<noteq> 0"
    "current_block (follow_init 1) \<notin> set (visited (follow_init 1))"
    "current_block (follow_init 1) \<notin> {}"
    "first_block (follow_init 1)
     \<or> \<not> is_message_start (packed_text (block_payload selfref_store 8 (current_block (follow_init 1))))"
    by (simp_all add: follow_init_def)
  have c: "current_block (follow_init 1) = 1" by (simp add: follow_init_def)
  have r: "block_in_range selfref_store 8 2 (current_block (follow_init 1))"
    unfolding c by code_simp
  have n: "next_pointer selfref_store 8 (current_block (follow_init 1)) = Some (current_block (follow_init 1))"
    unfolding c by code_simp
  have p: "probe_accepts selfref_store 8 2 {} 2" by code_simp
  have e: "current_block (follow_init 1) + 1 = 2" by (simp add: follow_init_def)
  have "follow_loop selfref_store 2 {} 8 (follow_init 1) =
       follow_loop selfref_store 2 {} 8 ((append_block selfref_store 8 (follow_init 1))\<lparr>current_block := 2\<rparr>)"
    using self_reference_probe [OF h(1,2,3) r h(4) n] p unfolding e by simp
  moreover have "follow_chain_with_tracking selfref_store 1 2 {} 8 = Some ([65], [1, 2])"
    by code_simp
  ultimately show ?thesis using p by blast
qed

text \<open>The claim as stated fails: here block 2 decodes to the letter \<open>a\<close>, 142 spaces
  and the letter \<open>b\<close>, which is 2 characters that are not whitespace, and the walk
  from the self-referencing block 1 resumes at it.\<close>

definition sparse_store :: "byte list" where
  "sparse_store = replicate 8 0 @ ([0x41] @ replicate 125 0 @ [1, 0])
     @ ([0x61, 0x20, 0x20, 0x20, 0x20, 0xA0, 0x20]
        @ concat (replicate 16 [0x20, 0x20, 0x20, 0x20, 0x20, 0xA0, 0x20])
        @ [0x20, 0xA0, 0x20, 0x20, 0x20, 0xA0, 0xA0] @ [0, 0])"

theorem self_reference_resumes_on_two_letters:
  "decode_7bit (block_payload sparse_store 8 2) False = Some ([97] @ replicate 142 32 @ [98])
   \<and> non_whitespace_count ([97] @ replicate 142 32 @ [98]) = 2
   \<and> follow_chain_with_tracking sparse_store 1 2 {} 8 = Some ([65], [1, 2])"
  by code_simp

subsection \<open>The header and a data area that starts past the end of the file\<close>

lemma slice_length: "b \<le> length d \<Longrightarrow> length (slice d a b) = b - a"
  by (simp add: slice_def)

lemma read_msginfo_short: "length data < 8 \<Longrightarrow> read_msginfo data = Some None"
  by (simp add: read_msginfo_def)

lemma read_msginfo_long:
  assumes "8 \<le> length data"
  shows "\<exists>m. read_msginfo data = Some (Some m)
     \<and> mi_dir_offset m = 8 + unat (data ! 0) * 128
     \<and> mi_data_offset m = 8 + unat (data ! 0) * 128 + unat (data ! 1) * 128
     \<and> mi_max_dir_entries m = (unat (data ! 1) * 128) div 4"
proof -
  have "\<exists>a. unpack_H (slice data 2 4) = Some a"
    by (rule unpack_H_slice) (use assms in simp_all)
  then obtain a where a: "unpack_H (slice data 2 4) = Some a" ..
  have "\<exists>b. unpack_H (slice data 4 6) = Some b"
    by (rule unpack_H_slice) (use assms in simp_all)
  then obtain b where b: "unpack_H (slice data 4 6) = Some b" ..
  have "\<exists>c. unpack_H (slice data 6 8) = Some c"
    by (rule unpack_H_slice) (use assms in simp_all)
  then obtain c where c: "unpack_H (slice data 6 8) = Some c" ..
  have l: "\<not> length data < 8" using assms by simp
  show ?thesis unfolding read_msginfo_def by (simp only: l if_False a b c) simp
qed

lemma entry_ref_total:
  assumes "entry_offset + 4 \<le> length data"
  shows "\<exists>n. unpack_H (slice (slice data entry_offset (entry_offset + 4)) 2 4) = Some n"
proof -
  have "length (slice data entry_offset (entry_offset + 4)) = 4"
    using assms by (simp add: slice_def)
  then show ?thesis by (intro unpack_H_slice) simp_all
qed

lemma phase1_loop_no_blocks:
  assumes "total_blocks < 0"
  shows "phase1_loop strptime data dir_offset data_offset total_blocks entries used active
           = Some (active, used)"
proof (induction entries)
  case Nil
  then show ?case by simp
next
  case (Cons e entries)
  show ?case
  proof (cases "dir_offset + e * 4 + 4 \<le> length data")
    case True
    then obtain n where n: "unpack_H (slice (slice data (dir_offset + e * 4) (dir_offset + e * 4 + 4)) 2 4) = Some n"
      using entry_ref_total by blast
    have "length (slice data (dir_offset + e * 4) (dir_offset + e * 4 + 4)) = 4"
      using True by (simp add: slice_def)
    then show ?thesis using True n Cons assms by (simp add: Let_def)
  next
    case False
    then show ?thesis by (simp add: Let_def)
  qed
qed

lemma negative_block_count: "(l::nat) < d \<Longrightarrow> (int l - int d) div 128 < 0"
  by (simp add: div_neg_pos_less0)

lemma sorted_unused_empty: "total_blocks < 1 \<Longrightarrow> sorted_unused total_blocks used = []"
  by (simp add: sorted_unused_def)

lemma bulletin_phases_no_blocks:
  assumes "total_blocks < 0"
  shows "bulletin_phases strptime data dir_offset data_offset total_blocks max_entries
           = Some ([], [], [], {}, {})"
  using assms by (simp add: bulletin_phases_def phase1_loop_no_blocks sorted_unused_empty)

text \<open>
  Claim C6, as amended. A store of at least 8 bytes whose header gives a data offset
  beyond the end of the file is scanned without failure: the bulletin scanner returns
  a result, with a negative block count, no active, deleted or orphaned message and
  empty block sets. The scanner returns \<^verbatim>\<open>None\<close> exactly for a file of fewer than 8
  bytes.
\<close>

theorem scan_bulletin_data_offset_past_end:
  assumes "8 \<le> length data"
    and "8 + unat (data ! 0) * 128 + unat (data ! 1) * 128 > length data"
  shows "\<exists>r. scan_database_bulletin strptime datetime_min data = Some (Some r)
     \<and> mi_data_offset (br_msginfo r) > length data
     \<and> br_total_blocks r < 0
     \<and> br_active_messages r = [] \<and> br_deleted_messages r = [] \<and> br_orphaned_messages r = []
     \<and> br_active_all_blocks r = {} \<and> br_deleted_all_blocks r = {}"
proof -
  from read_msginfo_long [OF assms(1)] obtain m where
    m: "read_msginfo data = Some (Some m)"
    and o: "mi_data_offset m = 8 + unat (data ! 0) * 128 + unat (data ! 1) * 128"
    by blast
  have g: "length data < mi_data_offset m" using assms(2) o by simp
  have t: "(int (length data) - int (mi_data_offset m)) div 128 < 0"
    by (rule negative_block_count [OF g])
  show ?thesis
    using g by (simp add: scan_database_bulletin_def m Let_def bulletin_phases_no_blocks [OF t])
qed

lemma scan_bulletin_none_iff:
  "scan_database_bulletin strptime datetime_min data = Some None \<longleftrightarrow> length data < 8"
proof (cases "length data < 8")
  case True
  then show ?thesis by (simp add: scan_database_bulletin_def read_msginfo_short)
next
  case False
  then obtain m where m: "read_msginfo data = Some (Some m)"
    using read_msginfo_long [of data] by auto
  show ?thesis using False m
    by (auto simp add: scan_database_bulletin_def Let_def split: bind_splits prod.splits)
qed

text \<open>A header alone, with one directory block announced: the data offset is 136, the
  file has 8 bytes.\<close>

definition header_only_store :: "byte list" where
  "header_only_store = [0, 1, 0, 0, 0, 0, 0, 0]"

definition no_strptime :: "pystr \<Rightarrow> nat option" where
  "no_strptime s = None"

theorem scan_bulletin_data_offset_past_end_example:
  "8 \<le> length header_only_store
   \<and> 8 + unat (header_only_store ! 0) * 128 + unat (header_only_store ! 1) * 128
       > length header_only_store
   \<and> (\<exists>r. scan_database_bulletin no_strptime 0 header_only_store = Some (Some r)
     \<and> mi_data_offset (br_msginfo r) > length header_only_store
     \<and> br_total_blocks r < 0
     \<and> br_active_messages r = [] \<and> br_deleted_messages r = [] \<and> br_orphaned_messages r = []
     \<and> br_active_all_blocks r = {} \<and> br_deleted_all_blocks r = {})"
proof -
  have a: "8 \<le> length header_only_store" by (simp add: header_only_store_def)
  have b: "8 + unat (header_only_store ! 0) * 128 + unat (header_only_store ! 1) * 128
       > length header_only_store" by (simp add: header_only_store_def)
  show ?thesis using a b scan_bulletin_data_offset_past_end [OF a b] by blast
qed

text \<open>The claim as stated fails there: the scan does not report failure.\<close>

theorem scan_bulletin_does_not_fail:
  "mi_data_offset (the (the (read_msginfo header_only_store))) = 136
   \<and> length header_only_store = 8
   \<and> scan_database_bulletin no_strptime 0 header_only_store \<noteq> Some None
   \<and> scan_database_bulletin no_strptime 0 header_only_store \<noteq> None"
  by code_simp

subsection \<open>The segments of one user's chain in the email scanner\<close>

lemma email_segments_append:
  "email_segments strptime user_id user_info segs acc =
     acc @ email_segments strptime user_id user_info segs []"
proof (induction segs arbitrary: acc)
  case Nil
  then show ?case by simp
next
  case (Cons s segs)
  show ?case
    using Cons.IH [of "acc @ [\<lparr> em_user_id = user_id, em_user_info = user_info,
        em_message = clean_segment s, em_date = parse_date strptime (clean_segment s) \<rparr>]"]
      Cons.IH [of "[\<lparr> em_user_id = user_id, em_user_info = user_info,
        em_message = clean_segment s, em_date = parse_date strptime (clean_segment s) \<rparr>]"]
      Cons.IH [of acc]
    by (simp add: Let_def)
qed

lemma email_segments_records:
  "email_segments strptime user_id user_info segs [] =
     map (\<lambda>m. \<lparr> em_user_id = user_id, em_user_info = user_info, em_message = m,
                 em_date = parse_date strptime m \<rparr>)
       (filter (\<lambda>m. 20 \<le> length m) (map clean_segment segs))"
proof (induction segs)
  case Nil
  then show ?case by simp
next
  case (Cons s segs)
  show ?case
    using Cons.IH email_segments_append [of strptime user_id user_info segs
      "[\<lparr> em_user_id = user_id, em_user_info = user_info,
        em_message = clean_segment s, em_date = parse_date strptime (clean_segment s) \<rparr>]"]
    by (simp add: Let_def not_less)
qed

lemma clean_segment_no_nul: "0 \<notin> set (clean_segment s)"
proof -
  have "set (py_strip t) \<subseteq> set t" for t
    by (auto simp add: py_strip_def dest!: set_dropWhileD)
  then have "set (clean_segment s) \<subseteq> set (filter (\<lambda>c. c \<noteq> 0) s)"
    unfolding clean_segment_def .
  then show ?thesis by auto
qed

text \<open>
  Claim C7, as amended. The records the email scanner makes from one user's chain text
  are, in order, the segments between the EOT characters (4), each with its null
  characters removed and its ends trimmed, that are at least 20 characters long; a
  shorter segment gives no record. Each record has the user's id and the date
  extracted from its text, and no null character.
\<close>

theorem email_split_segments:
  "map em_message (email_segments strptime user_id user_info (split_on 4 chain_text) [])
     = filter (\<lambda>m. 20 \<le> length m) (map clean_segment (split_on 4 chain_text))
   \<and> (\<forall>r \<in> set (email_segments strptime user_id user_info (split_on 4 chain_text) []).
        20 \<le> length (em_message r) \<and> 0 \<notin> set (em_message r)
        \<and> em_user_id r = user_id \<and> em_user_info r = user_info
        \<and> em_date r = parse_date strptime (em_message r))"
  by (auto simp add: email_segments_records o_def clean_segment_no_nul)

definition two_long_messages :: pystr where
  "two_long_messages = of_str ''Message number one...'' @ [4] @ [0] @ of_str '' Message number two... ''
     @ [4] @ of_str ''short'' @ [0, 0]"

theorem email_split_segments_example:
  "map em_message (email_segments no_strptime 3 (None :: unit option) (split_on 4 two_long_messages) [])
     = [of_str ''Message number one...'', of_str ''Message number two...'']"
proof -
  have "map em_message (email_segments no_strptime 3 (None :: unit option) (split_on 4 two_long_messages) [])
     = filter (\<lambda>m. 20 \<le> length m) (map clean_segment (split_on 4 two_long_messages))"
    using email_split_segments [of no_strptime 3 None two_long_messages] by blast
  also have "\<dots> = [of_str ''Message number one...'', of_str ''Message number two...'']"
    by code_simp
  finally show ?thesis .
qed

text \<open>The claim as stated fails. An email store (byte 0 is 4) with one directory block
  whose slot 0 refers to block 1, which decodes to \<open>MSG1\<close>, EOT, \<open>MSG2\<close> and null
  characters: both segments are shorter than 20 characters, and the scan has no record.\<close>

definition msg12_store :: "byte list" where
  "msg12_store = [4, 1, 0, 0, 0, 0, 0, 0] @ replicate 512 0
     @ ([0, 0, 1, 0] @ replicate 124 0)
     @ ([0xCD, 0xD3, 0xC7, 0x31, 0x04, 0x4D, 0xD3, 0x32] @ replicate 118 0 @ [0, 0])"

theorem email_msg1_msg2_yields_no_record:
  "decode_7bit (slice msg12_store 648 (648 + 126)) False
     = Some (of_str ''MSG1'' @ [4] @ of_str ''MSG2'' @ replicate 135 0)
   \<and> follow_chain_with_tracking msg12_store 1 1 {} 648 = Some (of_str ''MSG1'' @ [4] @ of_str ''MSG2'', [1])
   \<and> email_segments no_strptime 0 (None :: unit option)
        (split_on 4 (of_str ''MSG1'' @ [4] @ of_str ''MSG2'' @ [0, 0])) [] = []
   \<and> map_option (map_option er_active_messages)
        (scan_database_email no_strptime 0 msg12_store (None :: (nat \<rightharpoonup> unit) option)) = Some (Some [])"
  by code_simp

subsection \<open>Links between blocks, and sequences of walks on a shared claim set\<close>

text \<open>The steps the chain follower can take from a block in range: to the block its
  next-pointer names, or to the next sequential block when the pointer names the block
  itself. \<open>reachable\<close> is any number of such steps.\<close>

definition chain_link :: "byte list \<Rightarrow> nat \<Rightarrow> int \<Rightarrow> nat \<Rightarrow> nat \<Rightarrow> bool" where
  "chain_link data data_offset total_blocks a b =
     (a \<noteq> 0 \<and> block_in_range data data_offset total_blocks a \<and>
      (next_pointer data data_offset a = Some b
       \<or> (next_pointer data data_offset a = Some a \<and> b = a + 1)))"


text \<open>A list of walks \<open>(start block, text, chain blocks)\<close> made one after the other,
  each with the claim set left by the walks before it.\<close>

fun walks :: "byte list \<Rightarrow> int \<Rightarrow> nat \<Rightarrow> nat set \<Rightarrow> (nat \<times> pystr \<times> nat list) list \<Rightarrow> bool" where
  "walks data total_blocks data_offset used [] = True"
| "walks data total_blocks data_offset used ((h, t, c) # rest) =
     (follow_chain_with_tracking data h total_blocks used data_offset = Some (t, c)
      \<and> walks data total_blocks data_offset (used \<union> set c) rest)"

definition chains :: "(nat \<times> pystr \<times> nat list) list \<Rightarrow> nat list" where
  "chains ws = concat (map (\<lambda>w. snd (snd w)) ws)"

lemma chains_simps [simp]:
  "chains [] = []" "chains ((h, t, c) # ws) = c @ chains ws" "chains (xs @ ys) = chains xs @ chains ys"
  by (simp_all add: chains_def)




lemma walks_append:
  "walks data total_blocks data_offset used (xs @ ys) \<longleftrightarrow>
     walks data total_blocks data_offset used xs
     \<and> walks data total_blocks data_offset (used \<union> set (chains xs)) ys"
  by (induction xs arbitrary: used) (auto simp add: Un_assoc)



lemma walks_head_claimed:
  "walks data total_blocks data_offset used ws \<Longrightarrow> (h, t, c) \<in> set ws \<Longrightarrow> h \<noteq> 0 \<Longrightarrow>
     h \<in> used \<union> set (chains ws)"
proof (induction ws arbitrary: used)
  case Nil
  then show ?case by simp
next
  case (Cons w ws)
  obtain h' t' c' where w: "w = (h', t', c')" by (cases w)
  show ?case
  proof (cases "(h, t, c) = w")
    case True
    then have f: "follow_chain_with_tracking data h total_blocks used data_offset = Some (t, c)"
      using Cons.prems(1) w by simp
    have "h \<in> used \<or> h \<in> set c"
      using follow_chain_takes_start [OF f Cons.prems(3)] by blast
    then show ?thesis using True w by auto
  next
    case False
    then have "(h, t, c) \<in> set ws" using Cons.prems(2) by simp
    moreover have "walks data total_blocks data_offset (used \<union> set c') ws"
      using Cons.prems(1) w by simp
    ultimately have "h \<in> (used \<union> set c') \<union> set (chains ws)"
      using Cons.IH Cons.prems(3) by blast
    then show ?thesis using w by auto
  qed
qed

lemma walks_claimed_empty:
  assumes "walks data total_blocks data_offset used ws" "i < length ws"
    and "fst (ws ! i) \<in> used \<union> set (chains (take i ws))"
  shows "snd (ws ! i) = ([], [])"
proof -
  have s: "ws = take i ws @ (ws ! i) # drop (Suc i) ws"
    using assms(2) by (simp add: id_take_nth_drop)
  obtain h t c where w: "ws ! i = (h, t, c)" by (cases "ws ! i")
  have "walks data total_blocks data_offset (used \<union> set (chains (take i ws))) ((h, t, c) # drop (Suc i) ws)"
    using assms(1) s w walks_append [of data total_blocks data_offset used "take i ws" "(ws ! i) # drop (Suc i) ws"]
    by simp
  then have "follow_chain_with_tracking data h total_blocks (used \<union> set (chains (take i ws))) data_offset
      = Some (t, c)" by simp
  moreover have "h \<in> used \<union> set (chains (take i ws))" using assms(3) w by simp
  ultimately show ?thesis using follow_chain_claimed_start w by fastforce
qed

subsection \<open>The three phases of the bulletin scanner\<close>

text \<open>The block reference of a directory slot, if the four bytes of the slot lie in
  the file.\<close>

definition slot_ref :: "byte list \<Rightarrow> nat \<Rightarrow> nat \<Rightarrow> nat option" where
  "slot_ref data dir_offset entry_num =
     (if dir_offset + entry_num * 4 + 4 \<le> length data
      then unpack_H (slice data (dir_offset + entry_num * 4 + 2) (dir_offset + entry_num * 4 + 4))
      else None)"

text \<open>A populated slot: its reference is not 0 and is a block of the data area.\<close>

definition populated :: "byte list \<Rightarrow> nat \<Rightarrow> int \<Rightarrow> nat \<Rightarrow> bool" where
  "populated data dir_offset total_blocks entry_num =
     (case slot_ref data dir_offset entry_num of
        None \<Rightarrow> False
      | Some b \<Rightarrow> b \<noteq> 0 \<and> int b \<le> total_blocks)"

definition populated_slots :: "byte list \<Rightarrow> nat \<Rightarrow> int \<Rightarrow> nat list \<Rightarrow> (nat \<times> nat) list" where
  "populated_slots data dir_offset total_blocks entries =
     map (\<lambda>e. (e, the (slot_ref data dir_offset e)))
       (filter (populated data dir_offset total_blocks) entries)"

text \<open>A record with its chain blocks, as a walk.\<close>

definition active_walk :: "'d active_message \<times> nat list \<Rightarrow> nat \<times> pystr \<times> nat list" where
  "active_walk x = (am_block (fst x), am_message (fst x), snd x)"

definition deleted_walk :: "'d deleted_message \<times> nat list \<Rightarrow> nat \<times> pystr \<times> nat list" where
  "deleted_walk x = (dm_block (fst x), dm_message (fst x), snd x)"

definition orphaned_walk :: "orphaned_message \<times> nat list \<Rightarrow> nat \<times> pystr \<times> nat list" where
  "orphaned_walk x = (om_block (fst x), om_message (fst x), snd x)"

lemma slice_slice:
  "a + d \<le> length xs \<Longrightarrow> c \<le> d \<Longrightarrow> slice (slice xs a (a + d)) c d = slice xs (a + c) (a + d)"
  by (simp add: slice_def take_drop min_def add.commute)

lemma entry_ref_eq:
  assumes "dir_offset + e * 4 + 4 \<le> length data"
  shows "unpack_H (slice (slice data (dir_offset + e * 4) (dir_offset + e * 4 + 4)) 2 4)
       = slot_ref data dir_offset e"
  using assms slice_slice [of "dir_offset + e * 4" 4 data 2]
  by (simp add: slot_ref_def add.assoc)

lemma slot_ref_in_file:
  assumes "dir_offset + e * 4 + 4 \<le> length data"
  shows "\<exists>n. slot_ref data dir_offset e = Some n"
  using entry_ref_total [OF assms] entry_ref_eq [OF assms] by simp

lemma populated_slots_Cons:
  "populated_slots data dir_offset total_blocks (e # entries) =
     (if populated data dir_offset total_blocks e
      then (e, the (slot_ref data dir_offset e)) # populated_slots data dir_offset total_blocks entries
      else populated_slots data dir_offset total_blocks entries)"
  by (simp add: populated_slots_def)

lemma populated_slots_past_end:
  assumes "\<not> dir_offset + e * 4 + 4 \<le> length data" "sorted (e # entries)"
  shows "populated_slots data dir_offset total_blocks (e # entries) = []"
proof -
  have "\<not> populated data dir_offset total_blocks x" if "x \<in> set (e # entries)" for x
  proof -
    have "e \<le> x" using that assms(2) by auto
    then have "\<not> dir_offset + x * 4 + 4 \<le> length data" using assms(1) by simp
    then show ?thesis by (simp add: populated_def slot_ref_def)
  qed
  then show ?thesis unfolding populated_slots_def by (simp add: filter_empty_conv)
qed

lemma phase1_loop_spec:
  "\<exists>new. phase1_loop strptime data dir_offset data_offset total_blocks entries used active
            = Some (active @ new, used \<union> set (chains (map active_walk new)))
     \<and> walks data total_blocks data_offset used (map active_walk new)
     \<and> (sorted entries \<longrightarrow>
          map (\<lambda>x. (am_entry (fst x), am_block (fst x))) new
            = populated_slots data dir_offset total_blocks entries)
     \<and> list_all (\<lambda>x. am_date (fst x) = parse_date strptime (am_message (fst x))) new"
proof (induction entries arbitrary: used active)
  case Nil
  show ?case by (rule exI [of _ "[]"]) (simp add: populated_slots_def)
next
  case (Cons e entries)
  show ?case
  proof (cases "dir_offset + e * 4 + 4 \<le> length data")
    case False
    have "phase1_loop strptime data dir_offset data_offset total_blocks (e # entries) used active
        = Some (active, used)" using False by (simp add: Let_def)
    then show ?thesis using populated_slots_past_end [OF False]
      by (intro exI [of _ "[]"]) simp
  next
    case True
    then have l: "length (slice data (dir_offset + e * 4) (dir_offset + e * 4 + 4)) = 4"
      by (simp add: slice_def)
    obtain n where n: "slot_ref data dir_offset e = Some n"
      using slot_ref_in_file [OF True] by blast
    have u: "unpack_H (slice (slice data (dir_offset + e * 4) (dir_offset + e * 4 + 4)) 2 4) = Some n"
      using entry_ref_eq [OF True] n by simp
    have s: "sorted (e # entries) \<Longrightarrow> sorted entries" by simp
    show ?thesis
    proof (cases "n = 0 \<or> int n > total_blocks")
      case skip: True
      have p: "\<not> populated data dir_offset total_blocks e" using skip n by (auto simp add: populated_def)
      have "phase1_loop strptime data dir_offset data_offset total_blocks (e # entries) used active
          = phase1_loop strptime data dir_offset data_offset total_blocks entries used active"
        using True l u skip by (auto simp add: Let_def)
      then show ?thesis using Cons.IH [of used active] p s
        by (auto simp add: populated_slots_Cons)
    next
      case take: False
      have p: "populated data dir_offset total_blocks e" using take n by (simp add: populated_def)
      obtain t c where f: "follow_chain_with_tracking data n total_blocks used data_offset = Some (t, c)"
        using follow_chain_total by blast
      let ?x = "(\<lparr> am_entry = e, am_block = n, am_message = t, am_date = parse_date strptime t \<rparr>, c)"
      have r: "phase1_loop strptime data dir_offset data_offset total_blocks (e # entries) used active
          = phase1_loop strptime data dir_offset data_offset total_blocks entries (used \<union> set c) (active @ [?x])"
        using True l u take f by (simp add: Let_def)
      from Cons.IH [of "used \<union> set c" "active @ [?x]"] obtain new where
        n1: "phase1_loop strptime data dir_offset data_offset total_blocks entries (used \<union> set c) (active @ [?x])
            = Some ((active @ [?x]) @ new, (used \<union> set c) \<union> set (chains (map active_walk new)))"
        and n2: "walks data total_blocks data_offset (used \<union> set c) (map active_walk new)"
        and n3: "sorted entries \<longrightarrow> map (\<lambda>x. (am_entry (fst x), am_block (fst x))) new
            = populated_slots data dir_offset total_blocks entries"
        and n4: "list_all (\<lambda>x. am_date (fst x) = parse_date strptime (am_message (fst x))) new"
        by blast
      show ?thesis
      proof (intro exI [of _ "?x # new"] conjI impI)
        show "phase1_loop strptime data dir_offset data_offset total_blocks (e # entries) used active
           = Some (active @ ?x # new, used \<union> set (chains (map active_walk (?x # new))))"
          unfolding r n1 by (simp add: active_walk_def Un_assoc)
        show "walks data total_blocks data_offset used (map active_walk (?x # new))"
          using f n2 by (simp add: active_walk_def)
        show "list_all (\<lambda>x. am_date (fst x) = parse_date strptime (am_message (fst x))) (?x # new)"
          using n4 by simp
        assume "sorted (e # entries)"
        then show "map (\<lambda>x. (am_entry (fst x), am_block (fst x))) (?x # new)
            = populated_slots data dir_offset total_blocks (e # entries)"
          using n3 p n by (simp add: populated_slots_Cons)
      qed
    qed
  qed
qed

lemma phase2_loop_spec:
  "\<exists>new. phase2_loop strptime data data_offset total_blocks blocks used deleted deleted_all
            = Some (deleted @ new, deleted_all \<union> set (chains (map deleted_walk new)),
                    used \<union> set (chains (map deleted_walk new)))
     \<and> walks data total_blocks data_offset used (map deleted_walk new)
     \<and> list_all (\<lambda>x. dm_block (fst x) \<in> set blocks \<and> dm_block (fst x) \<notin> used) new"
proof (induction blocks arbitrary: used deleted deleted_all)
  case Nil
  show ?case by (rule exI [of _ "[]"]) simp
next
  case (Cons b blocks)
  let ?payload = "slice data (data_offset + (b - 1) * 128) (data_offset + (b - 1) * 128 + 126)"
  obtain decoded where d: "decode_7bit ?payload True = Some decoded"
    using decode_7bit_total by blast
  have weaken: "list_all (\<lambda>x. dm_block (fst x) \<in> set (b # blocks) \<and> dm_block (fst x) \<notin> used) new"
    if "list_all (\<lambda>x. dm_block (fst x) \<in> set blocks \<and> dm_block (fst x) \<notin> used') new" "used \<subseteq> used'"
    for new used'
    using that by (auto simp add: list_all_iff)
  show ?case
  proof (cases "b \<notin> used \<and> data_offset + (b - 1) * 128 + 128 \<le> length data
                \<and> \<not> non_null_count ?payload < 10 \<and> is_message_start decoded")
    case False
    then have "phase2_loop strptime data data_offset total_blocks (b # blocks) used deleted deleted_all
        = phase2_loop strptime data data_offset total_blocks blocks used deleted deleted_all"
      using d by (auto simp add: Let_def)
    moreover from Cons.IH [of used deleted deleted_all] obtain new where
      "phase2_loop strptime data data_offset total_blocks blocks used deleted deleted_all
            = Some (deleted @ new, deleted_all \<union> set (chains (map deleted_walk new)),
                    used \<union> set (chains (map deleted_walk new)))"
      "walks data total_blocks data_offset used (map deleted_walk new)"
      "list_all (\<lambda>x. dm_block (fst x) \<in> set blocks \<and> dm_block (fst x) \<notin> used) new"
      by blast
    ultimately show ?thesis using weaken [of used new] by (intro exI [of _ new]) simp
  next
    case True
    obtain t c where f: "follow_chain_with_tracking data b total_blocks used data_offset = Some (t, c)"
      using follow_chain_total by blast
    let ?x = "(\<lparr> dm_block = b, dm_message = t, dm_date = parse_date strptime t \<rparr>, c)"
    have r: "phase2_loop strptime data data_offset total_blocks (b # blocks) used deleted deleted_all
        = phase2_loop strptime data data_offset total_blocks blocks (used \<union> set c) (deleted @ [?x])
            (deleted_all \<union> set c)"
      using True d f by (simp add: Let_def)
    from Cons.IH [of "used \<union> set c" "deleted @ [?x]" "deleted_all \<union> set c"] obtain new where
      n1: "phase2_loop strptime data data_offset total_blocks blocks (used \<union> set c) (deleted @ [?x])
            (deleted_all \<union> set c)
          = Some ((deleted @ [?x]) @ new, (deleted_all \<union> set c) \<union> set (chains (map deleted_walk new)),
                  (used \<union> set c) \<union> set (chains (map deleted_walk new)))"
      and n2: "walks data total_blocks data_offset (used \<union> set c) (map deleted_walk new)"
      and n3: "list_all (\<lambda>x. dm_block (fst x) \<in> set blocks \<and> dm_block (fst x) \<notin> used \<union> set c) new"
      by blast
    show ?thesis
    proof (intro exI [of _ "?x # new"] conjI)
      show "phase2_loop strptime data data_offset total_blocks (b # blocks) used deleted deleted_all
         = Some (deleted @ ?x # new, deleted_all \<union> set (chains (map deleted_walk (?x # new))),
                 used \<union> set (chains (map deleted_walk (?x # new))))"
        unfolding r n1 by (simp add: deleted_walk_def Un_assoc)
      show "walks data total_blocks data_offset used (map deleted_walk (?x # new))"
        using f n2 by (simp add: deleted_walk_def)
      show "list_all (\<lambda>x. dm_block (fst x) \<in> set (b # blocks) \<and> dm_block (fst x) \<notin> used) (?x # new)"
        using weaken [OF n3] True by simp
    qed
  qed
qed

lemma phase3_loop_spec:
  "\<exists>new. phase3_loop data data_offset total_blocks blocks used orphaned
            = Some (orphaned @ new, used \<union> set (chains (map orphaned_walk new)))
     \<and> walks data total_blocks data_offset used (map orphaned_walk new)
     \<and> list_all (\<lambda>x. om_block (fst x) \<in> set blocks \<and> om_block (fst x) \<notin> used) new"
proof (induction blocks arbitrary: used orphaned)
  case Nil
  show ?case by (rule exI [of _ "[]"]) simp
next
  case (Cons b blocks)
  let ?payload = "slice data (data_offset + (b - 1) * 128) (data_offset + (b - 1) * 128 + 126)"
  have weaken: "list_all (\<lambda>x. om_block (fst x) \<in> set (b # blocks) \<and> om_block (fst x) \<notin> used) new"
    if "list_all (\<lambda>x. om_block (fst x) \<in> set blocks \<and> om_block (fst x) \<notin> used') new" "used \<subseteq> used'"
    for new used'
    using that by (auto simp add: list_all_iff)
  show ?case
  proof (cases "b \<notin> used \<and> data_offset + (b - 1) * 128 + 128 \<le> length data
                \<and> \<not> non_null_count ?payload < 10")
    case False
    then have "phase3_loop data data_offset total_blocks (b # blocks) used orphaned
        = phase3_loop data data_offset total_blocks blocks used orphaned"
      by (auto simp add: Let_def)
    moreover from Cons.IH [of used orphaned] obtain new where
      "phase3_loop data data_offset total_blocks blocks used orphaned
            = Some (orphaned @ new, used \<union> set (chains (map orphaned_walk new)))"
      "walks data total_blocks data_offset used (map orphaned_walk new)"
      "list_all (\<lambda>x. om_block (fst x) \<in> set blocks \<and> om_block (fst x) \<notin> used) new"
      by blast
    ultimately show ?thesis using weaken [of used new] by (intro exI [of _ new]) simp
  next
    case True
    obtain t c where f: "follow_chain_with_tracking data b total_blocks used data_offset = Some (t, c)"
      using follow_chain_total by blast
    let ?x = "(\<lparr> om_block = b, om_message = t \<rparr>, c)"
    have r: "phase3_loop data data_offset total_blocks (b # blocks) used orphaned
        = phase3_loop data data_offset total_blocks blocks (used \<union> set c) (orphaned @ [?x])"
      using True f by (simp add: Let_def)
    from Cons.IH [of "used \<union> set c" "orphaned @ [?x]"] obtain new where
      n1: "phase3_loop data data_offset total_blocks blocks (used \<union> set c) (orphaned @ [?x])
          = Some ((orphaned @ [?x]) @ new, (used \<union> set c) \<union> set (chains (map orphaned_walk new)))"
      and n2: "walks data total_blocks data_offset (used \<union> set c) (map orphaned_walk new)"
      and n3: "list_all (\<lambda>x. om_block (fst x) \<in> set blocks \<and> om_block (fst x) \<notin> used \<union> set c) new"
      by blast
    show ?thesis
    proof (intro exI [of _ "?x # new"] conjI)
      show "phase3_loop data data_offset total_blocks (b # blocks) used orphaned
         = Some (orphaned @ ?x # new, used \<union> set (chains (map orphaned_walk (?x # new))))"
        unfolding r n1 by (simp add: orphaned_walk_def Un_assoc)
      show "walks data total_blocks data_offset used (map orphaned_walk (?x # new))"
        using f n2 by (simp add: orphaned_walk_def)
      show "list_all (\<lambda>x. om_block (fst x) \<in> set (b # blocks) \<and> om_block (fst x) \<notin> used) (?x # new)"
        using weaken [OF n3] True by simp
    qed
  qed
qed

text \<open>What the three phases return: the records of each phase are walks made one after
  the other on the growing claim set, Phase 1 from the empty set.\<close>

lemma bulletin_phases_spec:
  "\<exists>active deleted orphaned.
     bulletin_phases strptime data dir_offset data_offset total_blocks max_entries
       = Some (active, deleted, orphaned, set (chains (map deleted_walk deleted)),
               set (chains (map active_walk active @ map deleted_walk deleted
                            @ map orphaned_walk orphaned)))
     \<and> walks data total_blocks data_offset {}
          (map active_walk active @ map deleted_walk deleted @ map orphaned_walk orphaned)
     \<and> phase1_loop strptime data dir_offset data_offset total_blocks [0..<max_entries] {} []
          = Some (active, set (chains (map active_walk active)))
     \<and> list_all (\<lambda>x. dm_block (fst x) \<notin> set (chains (map active_walk active))) deleted
     \<and> list_all (\<lambda>x. om_block (fst x) \<notin> set (chains (map active_walk active))) orphaned"
proof -
  from phase1_loop_spec [of strptime data dir_offset data_offset total_blocks "[0..<max_entries]" "{}" "[]"]
  obtain active where
    a1: "phase1_loop strptime data dir_offset data_offset total_blocks [0..<max_entries] {} []
          = Some (active, set (chains (map active_walk active)))"
    and a2: "walks data total_blocks data_offset {} (map active_walk active)"
    by auto
  let ?u1 = "set (chains (map active_walk active))"
  from phase2_loop_spec [of strptime data data_offset total_blocks "sorted_unused total_blocks ?u1" ?u1 "[]" "{}"]
  obtain deleted where
    d1: "phase2_loop strptime data data_offset total_blocks (sorted_unused total_blocks ?u1) ?u1 [] {}
          = Some (deleted, set (chains (map deleted_walk deleted)),
                  ?u1 \<union> set (chains (map deleted_walk deleted)))"
    and d2: "walks data total_blocks data_offset ?u1 (map deleted_walk deleted)"
    and d3: "list_all (\<lambda>x. dm_block (fst x) \<in> set (sorted_unused total_blocks ?u1) \<and> dm_block (fst x) \<notin> ?u1) deleted"
    by auto
  let ?u2 = "?u1 \<union> set (chains (map deleted_walk deleted))"
  from phase3_loop_spec [of data data_offset total_blocks "sorted_unused total_blocks ?u2" ?u2 "[]"]
  obtain orphaned where
    o1: "phase3_loop data data_offset total_blocks (sorted_unused total_blocks ?u2) ?u2 []
          = Some (orphaned, ?u2 \<union> set (chains (map orphaned_walk orphaned)))"
    and o2: "walks data total_blocks data_offset ?u2 (map orphaned_walk orphaned)"
    and o3: "list_all (\<lambda>x. om_block (fst x) \<in> set (sorted_unused total_blocks ?u2) \<and> om_block (fst x) \<notin> ?u2) orphaned"
    by auto
  show ?thesis
  proof (intro exI [of _ active] exI [of _ deleted] exI [of _ orphaned] conjI)
    show "bulletin_phases strptime data dir_offset data_offset total_blocks max_entries
       = Some (active, deleted, orphaned, set (chains (map deleted_walk deleted)),
               set (chains (map active_walk active @ map deleted_walk deleted
                            @ map orphaned_walk orphaned)))"
      by (simp add: bulletin_phases_def a1 d1 o1 Un_assoc)
    show "walks data total_blocks data_offset {}
          (map active_walk active @ map deleted_walk deleted @ map orphaned_walk orphaned)"
      using a2 d2 o2 by (simp add: walks_append)
    show "phase1_loop strptime data dir_offset data_offset total_blocks [0..<max_entries] {} []
          = Some (active, set (chains (map active_walk active)))" by (rule a1)
    show "list_all (\<lambda>x. dm_block (fst x) \<notin> set (chains (map active_walk active))) deleted"
      using d3 by (simp add: list_all_iff)
    show "list_all (\<lambda>x. om_block (fst x) \<notin> set (chains (map active_walk active))) orphaned"
      using o3 by (simp add: list_all_iff)
  qed
qed

subsection \<open>The scan result and the three phases\<close>

lemma active_chain_loop_total:
  "\<exists>r. active_chain_loop data data_offset next_block visited_set active_all = Some r"
proof (induction data data_offset next_block visited_set active_all rule: active_chain_loop.induct)
  case (1 data data_offset next_block visited_set active_all)
  let ?bo = "data_offset + (next_block - 1) * 128"
  show ?case
  proof (cases "next_block \<noteq> 0 \<and> next_block \<notin> visited_set")
    case False
    then show ?thesis by (subst active_chain_loop.simps) auto
  next
    case True
    show ?thesis
    proof (cases "?bo + 128 > length data")
      case True
      then show ?thesis using \<open>next_block \<noteq> 0 \<and> next_block \<notin> visited_set\<close>
        by (subst active_chain_loop.simps) (simp add: Let_def)
    next
      case False
      then have "?bo + 126 + 2 \<le> length data" by simp
      from unpack_H_slice [OF this, of "?bo + 128"] obtain n where
        n: "unpack_H (slice data (?bo + 126) (?bo + 128)) = Some n" by auto
      from "1.IH" [OF True refl False n] obtain r where
        "active_chain_loop data data_offset n (insert next_block visited_set)
           (insert next_block active_all) = Some r" by blast
      then show ?thesis using True False n
        by (subst active_chain_loop.simps) (simp add: Let_def)
    qed
  qed
qed

lemma active_blocks_loop_total:
  "\<exists>r. active_blocks_loop data data_offset msgs active_all = Some r"
proof (induction msgs arbitrary: active_all)
  case Nil
  then show ?case by simp
next
  case (Cons msg msgs)
  let ?bo = "data_offset + (am_block msg - 1) * 128"
  show ?case
  proof (cases "?bo + 128 \<le> length data")
    case True
    then have "?bo + 126 + 2 \<le> length data" by simp
    from unpack_H_slice [OF this, of "?bo + 128"] obtain n where
      n: "unpack_H (slice data (?bo + 126) (?bo + 128)) = Some n" by auto
    obtain a where a: "active_chain_loop data data_offset n {am_block msg}
        (insert (am_block msg) active_all) = Some a"
      using active_chain_loop_total by blast
    show ?thesis using True n a Cons.IH [of a] by (simp add: Let_def)
  next
    case False
    then show ?thesis using Cons.IH [of "insert (am_block msg) active_all"] by (simp add: Let_def)
  qed
qed

lemma active_blocks_loop_Nil: "active_blocks_loop data data_offset [] active_all = Some active_all"
  by simp

text \<open>The geometry the scanner derives from the header, and what it returns from the
  result of the three phases.\<close>

definition header_total_blocks :: "byte list \<Rightarrow> msginfo \<Rightarrow> int" where
  "header_total_blocks data m = (int (length data) - int (mi_data_offset m)) div 128"

lemma scan_bulletin_spec:
  assumes "8 \<le> length data"
  shows "\<exists>m active deleted orphaned r.
     read_msginfo data = Some (Some m)
     \<and> bulletin_phases strptime data (mi_dir_offset m) (mi_data_offset m)
          (header_total_blocks data m) (mi_max_dir_entries m)
        = Some (active, deleted, orphaned, set (chains (map deleted_walk deleted)),
               set (chains (map active_walk active @ map deleted_walk deleted
                            @ map orphaned_walk orphaned)))
     \<and> scan_database_bulletin strptime datetime_min data = Some (Some r)
     \<and> br_msginfo r = m \<and> br_total_blocks r = header_total_blocks data m
     \<and> br_active_messages r = map fst active
     \<and> br_deleted_messages r = sort_key (\<lambda>x. date_key datetime_min (dm_date x)) (map fst deleted)
     \<and> br_orphaned_messages r = map fst orphaned
     \<and> br_deleted_all_blocks r = set (chains (map deleted_walk deleted))
     \<and> br_allocated_blocks r = set (map am_block (map fst active))
     \<and> br_deleted_blocks r = set (map dm_block (map fst deleted))
     \<and> br_orphaned_blocks r = set (map om_block (map fst orphaned))"
proof -
  from read_msginfo_long [OF assms] obtain m where m: "read_msginfo data = Some (Some m)" by blast
  from bulletin_phases_spec [of strptime data "mi_dir_offset m" "mi_data_offset m"
      "header_total_blocks data m" "mi_max_dir_entries m"]
  obtain active deleted orphaned where
    p: "bulletin_phases strptime data (mi_dir_offset m) (mi_data_offset m)
          (header_total_blocks data m) (mi_max_dir_entries m)
        = Some (active, deleted, orphaned, set (chains (map deleted_walk deleted)),
               set (chains (map active_walk active @ map deleted_walk deleted
                            @ map orphaned_walk orphaned)))"
    by blast
  obtain a where a: "active_blocks_loop data (mi_data_offset m) (map fst active) {} = Some a"
    using active_blocks_loop_total by blast
  have s: "set (map dm_block (sort_key (\<lambda>x. date_key datetime_min (dm_date x)) (map fst deleted)))
      = set (map dm_block (map fst deleted))" by (simp add: image_image)
  show ?thesis
    apply (intro exI [of _ m] exI [of _ active] exI [of _ deleted] exI [of _ orphaned])
    apply (simp only: scan_database_bulletin_def m Let_def header_total_blocks_def [symmetric])
    apply (simp add: p a s del: set_map)
    done
qed

subsection \<open>A store with a chain that runs into a message start\<close>

text \<open>
  One directory block and three data blocks. Slot 0 refers to block 1, slot 1 to
  block 2, slot 2 to block 9 (not a block of the file). Block 1 holds \<open>A\<close> and links
  to block 2; block 2 decodes to a message start and links to block 3; block 3 holds
  \<open>Hi\<close> and ends the chain.
\<close>

definition priority_store :: "byte list" where
  "priority_store = [0, 1, 0, 0, 0, 0, 0, 0]
     @ ([0, 0, 1, 0, 0, 0, 2, 0, 0, 0, 9, 0] @ replicate 116 0)
     @ ([0x41] @ replicate 125 0 @ [2, 0])
     @ (start_payload @ [3, 0])
     @ ([0x48, 0x69] @ replicate 124 0 @ [0, 0])"

definition consumed :: "('r \<times> nat list) list \<Rightarrow> nat set" where
  "consumed xs = set (concat (map snd xs))"

lemma priority_store_phases:
  "bulletin_phases no_strptime priority_store 8 136 3 32 =
     Some ([(\<lparr>am_entry = 0, am_block = 1, am_message = [65], am_date = None\<rparr>, [1, 2]),
            (\<lparr>am_entry = 1, am_block = 2, am_message = [], am_date = None\<rparr>, [])],
           [], [], {}, {1, 2})"
  by code_simp

lemma priority_store_header:
  "read_msginfo priority_store = Some (Some \<lparr>mi_bitmap_blocks = 0, mi_dir_blocks = 1,
     mi_used_blocks = 0, mi_msg_count = 0, mi_new_msg_num = 0, mi_bitmap_offset = 8,
     mi_dir_offset = 8, mi_data_offset = 136, mi_max_dir_entries = 32\<rparr>)"
  by code_simp

lemma priority_store_links:
  "chain_link priority_store 136 3 1 2" "chain_link priority_store 136 3 2 3"
  "slot_ref priority_store 8 0 = Some 1" "slot_ref priority_store 8 1 = Some 2"
  "is_message_start (packed_text (block_payload priority_store 136 2))"
  by code_simp+

lemma chains_active [simp]: "chains (map active_walk xs) = concat (map snd xs)"
  by (induction xs) (simp_all add: active_walk_def chains_def)

lemma chains_deleted [simp]: "chains (map deleted_walk xs) = concat (map snd xs)"
  by (induction xs) (simp_all add: deleted_walk_def chains_def)

lemma chains_orphaned [simp]: "chains (map orphaned_walk xs) = concat (map snd xs)"
  by (induction xs) (simp_all add: orphaned_walk_def chains_def)

text \<open>
  Claim C10. Phase 1 returns one record for each populated slot (a slot of the
  directory that lies in the file, with a reference that is not 0 and not beyond the
  last block), in slot order, with the slot as \<open>entry\<close> and the reference as
  \<open>block\<close>; the date of each record is the date extracted from its text. A record
  whose block is in the chain blocks of an earlier record has the empty text and no
  chain blocks. The claim set after Phase 1 is the union of the chain blocks.
\<close>

theorem phase1_one_record_per_populated_slot:
  "\<exists>active.
     phase1_loop strptime data dir_offset data_offset total_blocks [0..<max_entries] {} []
       = Some (active, consumed active)
     \<and> map (\<lambda>x. (am_entry (fst x), am_block (fst x))) active
         = populated_slots data dir_offset total_blocks [0..<max_entries]
     \<and> list_all (\<lambda>x. am_date (fst x) = parse_date strptime (am_message (fst x))) active
     \<and> (\<forall>i < length active.
          am_block (fst (active ! i)) \<in> consumed (take i active) \<longrightarrow>
          am_message (fst (active ! i)) = [] \<and> snd (active ! i) = [])"
proof -
  from phase1_loop_spec [of strptime data dir_offset data_offset total_blocks "[0..<max_entries]" "{}" "[]"]
  obtain active where
    a1: "phase1_loop strptime data dir_offset data_offset total_blocks [0..<max_entries] {} []
          = Some (active, consumed active)"
    and a2: "walks data total_blocks data_offset {} (map active_walk active)"
    and a3: "map (\<lambda>x. (am_entry (fst x), am_block (fst x))) active
         = populated_slots data dir_offset total_blocks [0..<max_entries]"
    and a4: "list_all (\<lambda>x. am_date (fst x) = parse_date strptime (am_message (fst x))) active"
    by (auto simp add: consumed_def)
  have "am_message (fst (active ! i)) = [] \<and> snd (active ! i) = []"
    if i: "i < length active" and c: "am_block (fst (active ! i)) \<in> consumed (take i active)" for i
  proof -
    have t: "take i (map active_walk active) = map active_walk (take i active)"
      by (simp add: take_map)
    have "fst (map active_walk active ! i) \<in> {} \<union> set (chains (take i (map active_walk active)))"
      unfolding t using i c by (simp add: consumed_def active_walk_def)
    from walks_claimed_empty [OF a2 _ this] i
    show ?thesis by (simp add: active_walk_def)
  qed
  then show ?thesis using a1 a3 a4 by blast
qed

theorem phase1_one_record_per_populated_slot_example:
  "populated_slots priority_store 8 3 [0..<32] = [(0, 1), (1, 2)]
   \<and> phase1_loop no_strptime priority_store 8 136 3 [0..<32] {} [] =
       Some ([(\<lparr>am_entry = 0, am_block = 1, am_message = [65], am_date = None\<rparr>, [1, 2]),
              (\<lparr>am_entry = 1, am_block = 2, am_message = [], am_date = None\<rparr>, [])],
             {1, 2})"
proof -
  from phase1_one_record_per_populated_slot [of no_strptime priority_store 8 136 3 32]
  obtain active where
    a1: "phase1_loop no_strptime priority_store 8 136 3 [0..<32] {} [] = Some (active, consumed active)"
    and a3: "map (\<lambda>x. (am_entry (fst x), am_block (fst x))) active
         = populated_slots priority_store 8 3 [0..<32]"
    by blast
  have "bulletin_phases no_strptime priority_store 8 136 3 32
      = do { (deleted, deleted_all, used2) \<leftarrow>
               phase2_loop no_strptime priority_store 136 3
                 (sorted_unused 3 (consumed active)) (consumed active) [] {};
             (orphaned, used3) \<leftarrow>
               phase3_loop priority_store 136 3 (sorted_unused 3 used2) used2 [];
             Some (active, deleted, orphaned, deleted_all, used3) }"
    by (simp add: bulletin_phases_def a1)
  then have "active = [(\<lparr>am_entry = 0, am_block = 1, am_message = [65], am_date = None\<rparr>, [1, 2]),
            (\<lparr>am_entry = 1, am_block = 2, am_message = [], am_date = None\<rparr>, [])]"
    unfolding priority_store_phases by (auto split: bind_splits)
  then show ?thesis using a1 a3 by (simp add: consumed_def insert_commute)
qed

lemma phase1_one_record_per_populated_slot_aux:
  "\<exists>active.
     phase1_loop strptime data dir_offset data_offset total_blocks [0..<max_entries] {} []
       = Some (active, set (chains (map active_walk active)))
     \<and> map (\<lambda>x. (am_entry (fst x), am_block (fst x))) active
         = populated_slots data dir_offset total_blocks [0..<max_entries]"
  using phase1_loop_spec [of strptime data dir_offset data_offset total_blocks "[0..<max_entries]" "{}" "[]"]
  by auto

lemma walks_active_head_claimed:
  assumes "walks data total_blocks data_offset {} (map active_walk active)"
    and "x \<in> set active" "am_block (fst x) \<noteq> 0"
  shows "am_block (fst x) \<in> consumed active"
proof -
  have "(am_block (fst x), am_message (fst x), snd x) \<in> set (map active_walk active)"
    using assms(2) by (force simp add: active_walk_def)
  from walks_head_claimed [OF assms(1) this assms(3)]
  show ?thesis by (simp add: consumed_def)
qed

text \<open>
  Claim C4. In the result of a bulletin scan, a block that a directory slot refers to
  (the slot lies in the file, the reference is not 0 and not beyond the last block) is
  the block of an Active record for that slot, and it is the head block of no Deleted
  and of no Orphaned record, whatever the block decodes to, a message start included.
\<close>

theorem directory_block_is_active:
  assumes "8 \<le> length data"
  shows "\<exists>r. scan_database_bulletin strptime datetime_min data = Some (Some r)
     \<and> (\<forall>e b. e < mi_max_dir_entries (br_msginfo r)
            \<and> slot_ref data (mi_dir_offset (br_msginfo r)) e = Some b
            \<and> b \<noteq> 0 \<and> int b \<le> br_total_blocks r \<longrightarrow>
          (e, b) \<in> set (map (\<lambda>m. (am_entry m, am_block m)) (br_active_messages r))
          \<and> b \<in> br_allocated_blocks r
          \<and> b \<notin> set (map dm_block (br_deleted_messages r))
          \<and> b \<notin> set (map om_block (br_orphaned_messages r))
          \<and> b \<notin> br_deleted_blocks r \<and> b \<notin> br_orphaned_blocks r)"
proof -
  from scan_bulletin_spec [OF assms, of strptime datetime_min]
  obtain m active deleted orphaned r where
    p: "bulletin_phases strptime data (mi_dir_offset m) (mi_data_offset m)
          (header_total_blocks data m) (mi_max_dir_entries m)
        = Some (active, deleted, orphaned, set (chains (map deleted_walk deleted)),
               set (chains (map active_walk active @ map deleted_walk deleted
                            @ map orphaned_walk orphaned)))"
    and r: "scan_database_bulletin strptime datetime_min data = Some (Some r)"
    and f: "br_msginfo r = m" "br_total_blocks r = header_total_blocks data m"
      "br_active_messages r = map fst active"
      "br_deleted_messages r = sort_key (\<lambda>x. date_key datetime_min (dm_date x)) (map fst deleted)"
      "br_orphaned_messages r = map fst orphaned"
      "br_allocated_blocks r = set (map am_block (map fst active))"
      "br_deleted_blocks r = set (map dm_block (map fst deleted))"
      "br_orphaned_blocks r = set (map om_block (map fst orphaned))"
    by blast
  from bulletin_phases_spec [of strptime data "mi_dir_offset m" "mi_data_offset m"
      "header_total_blocks data m" "mi_max_dir_entries m"] p
  have w: "walks data (header_total_blocks data m) (mi_data_offset m) {}
          (map active_walk active @ map deleted_walk deleted @ map orphaned_walk orphaned)"
    and p1: "phase1_loop strptime data (mi_dir_offset m) (mi_data_offset m)
          (header_total_blocks data m) [0..<mi_max_dir_entries m] {} []
          = Some (active, set (chains (map active_walk active)))"
    and d: "list_all (\<lambda>x. dm_block (fst x) \<notin> set (chains (map active_walk active))) deleted"
    and o: "list_all (\<lambda>x. om_block (fst x) \<notin> set (chains (map active_walk active))) orphaned"
    by auto
  from phase1_one_record_per_populated_slot_aux [of strptime data "mi_dir_offset m" "mi_data_offset m"
      "header_total_blocks data m" "mi_max_dir_entries m"] p1
  have s: "map (\<lambda>x. (am_entry (fst x), am_block (fst x))) active
         = populated_slots data (mi_dir_offset m) (header_total_blocks data m) [0..<mi_max_dir_entries m]"
    by auto
  have wa: "walks data (header_total_blocks data m) (mi_data_offset m) {} (map active_walk active)"
    using w by (simp add: walks_append)
  have main: "(e, b) \<in> set (map (\<lambda>m. (am_entry m, am_block m)) (br_active_messages r))
          \<and> b \<in> br_allocated_blocks r
          \<and> b \<notin> set (map dm_block (br_deleted_messages r))
          \<and> b \<notin> set (map om_block (br_orphaned_messages r))
          \<and> b \<notin> br_deleted_blocks r \<and> b \<notin> br_orphaned_blocks r"
    if h: "e < mi_max_dir_entries m" "slot_ref data (mi_dir_offset m) e = Some b"
      "b \<noteq> 0" "int b \<le> header_total_blocks data m" for e b
  proof -
    have "populated data (mi_dir_offset m) (header_total_blocks data m) e"
      using h by (simp add: populated_def)
    then have "(e, b) \<in> set (populated_slots data (mi_dir_offset m) (header_total_blocks data m)
        [0..<mi_max_dir_entries m])"
      using h by (force simp add: populated_slots_def)
    then have "(e, b) \<in> set (map (\<lambda>x. (am_entry (fst x), am_block (fst x))) active)"
      using s by simp
    then obtain x where x: "x \<in> set active" "am_entry (fst x) = e" "am_block (fst x) = b"
      by auto
    have c: "b \<in> consumed active"
      using walks_active_head_claimed [OF wa x(1)] x(3) h(3) by simp
    have nd: "b \<notin> dm_block ` fst ` set deleted"
      using d c by (auto simp add: list_all_iff consumed_def)
    have no: "b \<notin> om_block ` fst ` set orphaned"
      using o c by (auto simp add: list_all_iff consumed_def)
    have "(e, b) \<in> set (map (\<lambda>m. (am_entry m, am_block m)) (map fst active))"
      using x by force
    moreover have "b \<in> set (map am_block (map fst active))" using x by force
    ultimately show ?thesis using nd no by (simp add: f image_image)
  qed
  show ?thesis
  proof (rule exI [of _ r], rule conjI, rule r, intro allI impI)
    fix e b
    assume "e < mi_max_dir_entries (br_msginfo r)
            \<and> slot_ref data (mi_dir_offset (br_msginfo r)) e = Some b
            \<and> b \<noteq> 0 \<and> int b \<le> br_total_blocks r"
    then have "e < mi_max_dir_entries m" "slot_ref data (mi_dir_offset m) e = Some b"
      "b \<noteq> 0" "int b \<le> header_total_blocks data m"
      using f(1,2) by simp_all
    then show "(e, b) \<in> set (map (\<lambda>m. (am_entry m, am_block m)) (br_active_messages r))
          \<and> b \<in> br_allocated_blocks r
          \<and> b \<notin> set (map dm_block (br_deleted_messages r))
          \<and> b \<notin> set (map om_block (br_orphaned_messages r))
          \<and> b \<notin> br_deleted_blocks r \<and> b \<notin> br_orphaned_blocks r"
      by (rule main)
  qed
qed

theorem directory_block_is_active_example:
  "8 \<le> length priority_store
   \<and> slot_ref priority_store 8 1 = Some 2
   \<and> is_message_start (packed_text (block_payload priority_store 136 2))
   \<and> (\<exists>r. scan_database_bulletin no_strptime 0 priority_store = Some (Some r)
        \<and> (1, 2) \<in> set (map (\<lambda>m. (am_entry m, am_block m)) (br_active_messages r))
        \<and> 2 \<in> br_allocated_blocks r
        \<and> 2 \<notin> set (map dm_block (br_deleted_messages r))
        \<and> 2 \<notin> set (map om_block (br_orphaned_messages r))
        \<and> 2 \<notin> br_deleted_blocks r \<and> 2 \<notin> br_orphaned_blocks r)"
proof -
  have l: "8 \<le> length priority_store" by (simp add: priority_store_def)
  from directory_block_is_active [OF l, of no_strptime 0] obtain r where
    r: "scan_database_bulletin no_strptime 0 priority_store = Some (Some r)"
    and a: "\<And>e b. e < mi_max_dir_entries (br_msginfo r)
            \<and> slot_ref priority_store (mi_dir_offset (br_msginfo r)) e = Some b
            \<and> b \<noteq> 0 \<and> int b \<le> br_total_blocks r \<Longrightarrow>
          (e, b) \<in> set (map (\<lambda>m. (am_entry m, am_block m)) (br_active_messages r))
          \<and> b \<in> br_allocated_blocks r
          \<and> b \<notin> set (map dm_block (br_deleted_messages r))
          \<and> b \<notin> set (map om_block (br_orphaned_messages r))
          \<and> b \<notin> br_deleted_blocks r \<and> b \<notin> br_orphaned_blocks r"
    by blast
  have len: "length priority_store = 520" by (simp add: priority_store_def start_payload_def)
  from scan_bulletin_spec [OF l, of no_strptime 0] obtain m' r' where
    h: "read_msginfo priority_store = Some (Some m')"
    and s: "scan_database_bulletin no_strptime 0 priority_store = Some (Some r')"
      "br_msginfo r' = m'" "br_total_blocks r' = header_total_blocks priority_store m'"
    by blast
  have e: "r' = r" using r s(1) by simp
  have v: "mi_max_dir_entries m' = 32" "mi_dir_offset m' = 8" "mi_data_offset m' = 136"
    using h unfolding priority_store_header by auto
  have m: "mi_max_dir_entries (br_msginfo r) = 32" "mi_dir_offset (br_msginfo r) = 8"
    "br_total_blocks r = 3"
    using s(2,3) v unfolding e by (simp_all add: header_total_blocks_def len)
  have "1 < mi_max_dir_entries (br_msginfo r)
            \<and> slot_ref priority_store (mi_dir_offset (br_msginfo r)) 1 = Some 2
            \<and> (2::nat) \<noteq> 0 \<and> int 2 \<le> br_total_blocks r"
    using m priority_store_links(4) by simp
  from a [OF this] show ?thesis using l r priority_store_links(4,5) by blast
qed





end
